theory Spec2Isabelle
  imports Main "HOL-Library.Word"
begin

section \<open>CLOCK replacer\<close>

text \<open>
  The state of \<^verbatim>\<open>ClockReplacer\<close> as \<^verbatim>\<open>clock_replacer.h\<close> declares it. The
  \<^verbatim>\<open>size_t\<close> fields are natural numbers: \<^verbatim>\<open>clock_hand_\<close> is only ever
  incremented by one below \<^verbatim>\<open>num_pages_\<close> and reduced modulo it, and
  \<^verbatim>\<open>current_size_\<close> is only incremented next to a bit of \<^verbatim>\<open>pinned_\<close> turning
  true, so neither can wrap around. \<^verbatim>\<open>frame_id_t\<close> is a signed integer, and the
  victim's frame id is the position of the hand. Despite its name, \<^verbatim>\<open>pinned_[i]\<close> is
  true when frame \<open>i\<close> is tracked by the replacer.
\<close>

record ClockReplacer =
  num_pages :: nat
  clock_hand :: nat
  reference_bits :: "bool list"
  pinned :: "bool list"
  current_size :: nat

definition ClockReplacer_new :: "nat \<Rightarrow> ClockReplacer" where
  "ClockReplacer_new n =
     \<lparr>num_pages = n, clock_hand = 0, reference_bits = replicate n False,
      pinned = replicate n False, current_size = 0\<rparr>"

text \<open>
  \<^verbatim>\<open>ClockReplacer::Victim\<close> of \<^verbatim>\<open>src/buffer/clock_replacer.cpp\<close>: the loop runs while
  \<^verbatim>\<open>scanned < num_pages_\<close>. The result \<open>Some f\<close> is the return value true with
  \<^verbatim>\<open>*frame_id = f\<close>; \<open>None\<close> is the return value false.
\<close>

function Victim_loop :: "ClockReplacer \<Rightarrow> nat \<Rightarrow> int option \<times> ClockReplacer" where
  "Victim_loop s scanned =
     (if scanned < num_pages s then
        (if \<not> pinned s ! clock_hand s then
           Victim_loop (s\<lparr>clock_hand := (clock_hand s + 1) mod num_pages s\<rparr>) (scanned + 1)
         else if reference_bits s ! clock_hand s then
           Victim_loop
             (s\<lparr>reference_bits := (reference_bits s)[clock_hand s := False],
                clock_hand := (clock_hand s + 1) mod num_pages s\<rparr>) (scanned + 1)
         else
           (Some (int (clock_hand s)),
            s\<lparr>pinned := (pinned s)[clock_hand s := False],
              reference_bits := (reference_bits s)[clock_hand s := False],
              current_size := current_size s - 1,
              clock_hand := (clock_hand s + 1) mod num_pages s\<rparr>))
      else (None, s))"
  by pat_completeness auto
termination
  by (relation "measure (\<lambda>(s, scanned). num_pages s - scanned)") auto

declare Victim_loop.simps [simp del]

definition Victim :: "ClockReplacer \<Rightarrow> int option \<times> ClockReplacer" where
  "Victim s = (if current_size s = 0 then (None, s) else Victim_loop s 0)"

text \<open>
  \<^verbatim>\<open>ClockReplacer::Victim\<close> of the second copy of \<^verbatim>\<open>clock_replacer.cpp\<close>
  (\<^verbatim>\<open>unnamed/part_001\<close>): the loop is \<^verbatim>\<open>while (true)\<close>. A run that never leaves the
  loop is the value \<open>None\<close>; a run that returns gives \<open>Some (f, s')\<close> (the C++ function
  then returns true). \<open>Victim_fuel n\<close> is the same loop cut off after \<open>n\<close> iterations, each
  of which advances the hand once.
\<close>

partial_function (option) Victim_while :: "ClockReplacer \<Rightarrow> (int \<times> ClockReplacer) option" where
  "Victim_while s =
     (if \<not> pinned s ! clock_hand s then
        Victim_while (s\<lparr>clock_hand := (clock_hand s + 1) mod num_pages s\<rparr>)
      else if reference_bits s ! clock_hand s then
        Victim_while
          (s\<lparr>reference_bits := (reference_bits s)[clock_hand s := False],
             clock_hand := (clock_hand s + 1) mod num_pages s\<rparr>)
      else
        Some (int (clock_hand s),
              s\<lparr>pinned := (pinned s)[clock_hand s := False],
                reference_bits := (reference_bits s)[clock_hand s := False],
                current_size := current_size s - 1,
                clock_hand := (clock_hand s + 1) mod num_pages s\<rparr>))"

fun Victim_fuel :: "nat \<Rightarrow> ClockReplacer \<Rightarrow> (int \<times> ClockReplacer) option" where
  "Victim_fuel 0 s = None"
| "Victim_fuel (Suc n) s =
     (if \<not> pinned s ! clock_hand s then
        Victim_fuel n (s\<lparr>clock_hand := (clock_hand s + 1) mod num_pages s\<rparr>)
      else if reference_bits s ! clock_hand s then
        Victim_fuel n
          (s\<lparr>reference_bits := (reference_bits s)[clock_hand s := False],
             clock_hand := (clock_hand s + 1) mod num_pages s\<rparr>)
      else
        Some (int (clock_hand s),
              s\<lparr>pinned := (pinned s)[clock_hand s := False],
                reference_bits := (reference_bits s)[clock_hand s := False],
                current_size := current_size s - 1,
                clock_hand := (clock_hand s + 1) mod num_pages s\<rparr>))"

definition Victim_001 :: "ClockReplacer \<Rightarrow> (int option \<times> ClockReplacer) option" where
  "Victim_001 s =
     (if current_size s = 0 then Some (None, s)
      else map_option (\<lambda>(f, s'). (Some f, s')) (Victim_while s))"

text \<open>\<^verbatim>\<open>Pin\<close>, \<^verbatim>\<open>Unpin\<close> and \<^verbatim>\<open>Size\<close> are the same in both copies.\<close>

definition Pin :: "int \<Rightarrow> ClockReplacer \<Rightarrow> ClockReplacer" where
  "Pin fid s =
     (if fid < 0 \<or> nat fid \<ge> num_pages s then s
      else if pinned s ! nat fid then
        s\<lparr>pinned := (pinned s)[nat fid := False],
          reference_bits := (reference_bits s)[nat fid := False],
          current_size := (if current_size s > 0 then current_size s - 1 else current_size s)\<rparr>
      else s)"

definition Unpin :: "int \<Rightarrow> ClockReplacer \<Rightarrow> ClockReplacer" where
  "Unpin fid s =
     (if fid < 0 \<or> nat fid \<ge> num_pages s then s
      else if \<not> pinned s ! nat fid then
        s\<lparr>pinned := (pinned s)[nat fid := True],
          reference_bits := (reference_bits s)[nat fid := True],
          current_size := current_size s + 1\<rparr>
      else s)"

definition ClockReplacer_Size :: "ClockReplacer \<Rightarrow> nat" where
  "ClockReplacer_Size s = current_size s"

text \<open>Sequences of calls on one replacer, for each copy of the file.\<close>

datatype clock_op = OpPin int | OpUnpin int | OpVictim

fun clock_run :: "clock_op list \<Rightarrow> ClockReplacer \<Rightarrow> ClockReplacer" where
  "clock_run [] s = s"
| "clock_run (OpPin f # ops) s = clock_run ops (Pin f s)"
| "clock_run (OpUnpin f # ops) s = clock_run ops (Unpin f s)"
| "clock_run (OpVictim # ops) s = clock_run ops (snd (Victim s))"

fun clock_run_001 :: "clock_op list \<Rightarrow> ClockReplacer \<Rightarrow> ClockReplacer option" where
  "clock_run_001 [] s = Some s"
| "clock_run_001 (OpPin f # ops) s = clock_run_001 ops (Pin f s)"
| "clock_run_001 (OpUnpin f # ops) s = clock_run_001 ops (Unpin f s)"
| "clock_run_001 (OpVictim # ops) s =
     (case Victim_001 s of None \<Rightarrow> None | Some (r, s') \<Rightarrow> clock_run_001 ops s')"

text \<open>
  The number of tracked frames, and the invariant of the CLOCK state. With capacity 0 the
  hand is 0 and stays there, so the hand is below \<open>num_pages\<close> exactly when there is a frame.
\<close>

definition tracked_count :: "ClockReplacer \<Rightarrow> nat" where
  "tracked_count s = length (filter (\<lambda>b. b) (pinned s))"

definition clock_inv :: "ClockReplacer \<Rightarrow> bool" where
  "clock_inv s \<longleftrightarrow>
     length (pinned s) = num_pages s \<and> length (reference_bits s) = num_pages s \<and>
     current_size s = tracked_count s \<and>
     (clock_hand s < num_pages s \<or> (num_pages s = 0 \<and> clock_hand s = 0))"

text \<open>
  What is observable of the invariant for a replacer of capacity \<open>n\<close>: the size, which
  is also what \<^verbatim>\<open>Size()\<close> returns, counts the tracked frames, and the hand is below
  \<open>n\<close>, or 0 when there is no frame at all.
\<close>

definition clock_I1 :: "nat \<Rightarrow> ClockReplacer \<Rightarrow> bool" where
  "clock_I1 n s \<longleftrightarrow>
     current_size s = tracked_count s \<and> ClockReplacer_Size s = tracked_count s \<and>
     (if n = 0 then clock_hand s = 0 else clock_hand s < n)"

section \<open>ARC replacer\<close>

text \<open>
  Modelled from the spec: \<^verbatim>\<open>arc_replacer.h\<close>, which declares \<^verbatim>\<open>ArcStatus\<close>,
  \<^verbatim>\<open>FrameStatus\<close> and the fields of \<^verbatim>\<open>ArcReplacer\<close>, is not among the sources.
  The status record carries the page, the frame, the evictable flag and the region, in the
  order of the constructor calls of \<^verbatim>\<open>arc_replacer.cpp\<close>. The three counters are
  \<^verbatim>\<open>size_t\<close> values, like the constructor's argument and the list sizes they are added
  to and compared with: 64-bit words, whose arithmetic wraps around. The adaptive parameter
  and the size start at 0. Position 0 of each list is its front, the MRU end.

  The list handles \<^verbatim>\<open>list_iter_\<close> and \<^verbatim>\<open>ghost_iter_\<close> are not stored. A handle
  of a resident frame names the node of that frame in the list of its region; a handle of a
  ghost entry names the node pushed last for its page, which is the first node of that page
  in its ghost list, since ghost nodes are only ever pushed at the front. Erasing through a
  handle is therefore \<^const>\<open>remove1\<close>, and is undefined behaviour when the list has
  no such node.
\<close>

datatype ArcStatus = MRU | MFU | MRU_GHOST | MFU_GHOST

record FrameStatus =
  page_id :: int
  frame_id :: int
  evictable :: bool
  arc_status :: ArcStatus

record ArcReplacer =
  mru :: "int list"
  mfu :: "int list"
  mru_ghost :: "int list"
  mfu_ghost :: "int list"
  alive_map :: "int \<rightharpoonup> FrameStatus"
  ghost_map :: "int \<rightharpoonup> FrameStatus"
  curr_size :: "64 word"
  mru_target_size :: "64 word"
  replacer_size :: "64 word"

text \<open>
  A call either returns, or throws \<^verbatim>\<open>std::runtime_error\<close> (with the replacer as the
  throw leaves it), or runs into undefined behaviour of the C++ library: \<^verbatim>\<open>back()\<close>
  and \<^verbatim>\<open>pop_back()\<close> on an empty list, a division by zero, an erase through a handle
  whose node is gone.
\<close>

datatype error = RuntimeError string ArcReplacer | UndefinedBehavior

definition ArcReplacer_new :: "64 word \<Rightarrow> ArcReplacer" where
  "ArcReplacer_new num_frames =
     \<lparr>mru = [], mfu = [], mru_ghost = [], mfu_ghost = [],
      alive_map = Map.empty, ghost_map = Map.empty,
      curr_size = 0, mru_target_size = 0, replacer_size = num_frames\<rparr>"

text \<open>
  The loop of \<^verbatim>\<open>EvictInternal\<close>, over the list in the order of the reverse iterator
  (LRU end first). It returns the victim, its status and the rest of the list, still in
  reverse order, with the victim's node erased.
\<close>

fun EvictInternal_scan ::
  "(int \<rightharpoonup> FrameStatus) \<Rightarrow> int list \<Rightarrow> (int \<times> FrameStatus \<times> int list) option" where
  "EvictInternal_scan alive [] = None"
| "EvictInternal_scan alive (fid # riter) =
     (case alive fid of
        Some frame_status \<Rightarrow>
          if evictable frame_status then Some (fid, frame_status, riter)
          else map_option (\<lambda>(v, st, l). (v, st, fid # l)) (EvictInternal_scan alive riter)
      | None \<Rightarrow> map_option (\<lambda>(v, st, l). (v, st, fid # l)) (EvictInternal_scan alive riter))"

text \<open>
  \<^verbatim>\<open>EvictInternal\<close> takes the two lists by reference; here it returns them, and
  \<^verbatim>\<open>Evict\<close> stores them back into the fields they came from.
\<close>

definition EvictInternal ::
  "int list \<Rightarrow> ArcStatus \<Rightarrow> int list \<Rightarrow> ArcReplacer \<Rightarrow>
   int option \<times> int list \<times> int list \<times> ArcReplacer" where
  "EvictInternal from_list ghost_status to_ghost_list s =
     (case EvictInternal_scan (alive_map s) (rev from_list) of
        None \<Rightarrow> (None, from_list, to_ghost_list, s)
      | Some (fid, frame_status, rest) \<Rightarrow>
          (Some fid, rev rest, page_id frame_status # to_ghost_list,
           s\<lparr>ghost_map := (ghost_map s)(page_id frame_status \<mapsto>
                 \<lparr>page_id = page_id frame_status, frame_id = fid, evictable = False,
                  arc_status = ghost_status\<rparr>),
             alive_map := (alive_map s)(fid := None),
             curr_size := curr_size s - 1\<rparr>))"

definition Evict :: "ArcReplacer \<Rightarrow> int option \<times> ArcReplacer" where
  "Evict s =
     (if length (mru s) < unat (mru_target_size s) then
        (case EvictInternal (mfu s) MFU_GHOST (mfu_ghost s) s of
           (Some fid, l, g, s') \<Rightarrow> (Some fid, s'\<lparr>mfu := l, mfu_ghost := g\<rparr>)
         | (None, l, g, s') \<Rightarrow>
             (case EvictInternal (mru s) MRU_GHOST (mru_ghost s) s of
                (r, l', g', s'') \<Rightarrow> (r, s''\<lparr>mru := l', mru_ghost := g'\<rparr>)))
      else
        (case EvictInternal (mru s) MRU_GHOST (mru_ghost s) s of
           (Some fid, l, g, s') \<Rightarrow> (Some fid, s'\<lparr>mru := l, mru_ghost := g\<rparr>)
         | (None, l, g, s') \<Rightarrow>
             (case EvictInternal (mfu s) MFU_GHOST (mfu_ghost s) s of
                (r, l', g', s'') \<Rightarrow> (r, s''\<lparr>mfu := l', mfu_ghost := g'\<rparr>))))"

definition RecordAccess :: "int \<Rightarrow> int \<Rightarrow> ArcReplacer \<Rightarrow> error + ArcReplacer" where
  "RecordAccess fid pid s =
     (case alive_map s fid of
        Some frame_status \<Rightarrow>
          if arc_status frame_status = MRU then
            (if fid \<in> set (mru s) then
               Inr (s\<lparr>mru := remove1 fid (mru s),
                      mfu := fid # mfu s,
                      alive_map := (alive_map s)(fid \<mapsto> frame_status\<lparr>arc_status := MFU\<rparr>)\<rparr>)
             else Inl UndefinedBehavior)
          else if arc_status frame_status = MFU then
            (if fid \<in> set (mfu s) then Inr (s\<lparr>mfu := fid # remove1 fid (mfu s)\<rparr>)
             else Inl UndefinedBehavior)
          else Inr s
      | None \<Rightarrow>
          (case ghost_map s pid of
             Some frame_status \<Rightarrow>
               if arc_status frame_status = MRU_GHOST then
                 (if length (mru_ghost s) < length (mfu_ghost s) \<and> length (mru_ghost s) = 0
                  then Inl UndefinedBehavior
                  else if pid \<notin> set (mru_ghost s) then Inl UndefinedBehavior
                  else
                    let delta = (if length (mru_ghost s) \<ge> length (mfu_ghost s) then 1
                                 else of_nat (length (mfu_ghost s) div length (mru_ghost s)))
                    in Inr (s\<lparr>mru_target_size := mru_target_size s + delta,
                              mru_ghost := remove1 pid (mru_ghost s),
                              ghost_map := (ghost_map s)(pid := None),
                              mfu := fid # mfu s,
                              alive_map := (alive_map s)(fid \<mapsto>
                                \<lparr>page_id = pid, frame_id = fid, evictable = True,
                                 arc_status = MFU\<rparr>),
                              curr_size := curr_size s + 1\<rparr>))
               else if arc_status frame_status = MFU_GHOST then
                 (if length (mfu_ghost s) < length (mru_ghost s) \<and> length (mfu_ghost s) = 0
                  then Inl UndefinedBehavior
                  else if pid \<notin> set (mfu_ghost s) then Inl UndefinedBehavior
                  else
                    let delta = (if length (mfu_ghost s) \<ge> length (mru_ghost s) then 1
                                 else of_nat (length (mru_ghost s) div length (mfu_ghost s)))
                    in Inr (s\<lparr>mru_target_size := mru_target_size s - delta,
                              mfu_ghost := remove1 pid (mfu_ghost s),
                              ghost_map := (ghost_map s)(pid := None),
                              mfu := fid # mfu s,
                              alive_map := (alive_map s)(fid \<mapsto>
                                \<lparr>page_id = pid, frame_id = fid, evictable = True,
                                 arc_status = MFU\<rparr>),
                              curr_size := curr_size s + 1\<rparr>))
               else Inr s
           | None \<Rightarrow>
               if length (mru s) + length (mru_ghost s) = unat (replacer_size s) then
                 (if mru_ghost s = [] then Inl UndefinedBehavior
                  else
                    Inr (s\<lparr>mru_ghost := butlast (mru_ghost s),
                           ghost_map := (ghost_map s)(last (mru_ghost s) := None),
                           mru := fid # mru s,
                           alive_map := (alive_map s)(fid \<mapsto>
                             \<lparr>page_id = pid, frame_id = fid, evictable = True,
                              arc_status = MRU\<rparr>),
                           curr_size := curr_size s + 1\<rparr>))
               else if length (mru s) + length (mfu s) + length (mru_ghost s)
                         + length (mfu_ghost s) = unat (2 * replacer_size s) then
                 (if mfu_ghost s = [] then Inl UndefinedBehavior
                  else
                    Inr (s\<lparr>mfu_ghost := butlast (mfu_ghost s),
                           ghost_map := (ghost_map s)(last (mfu_ghost s) := None),
                           mru := fid # mru s,
                           alive_map := (alive_map s)(fid \<mapsto>
                             \<lparr>page_id = pid, frame_id = fid, evictable = True,
                              arc_status = MRU\<rparr>),
                           curr_size := curr_size s + 1\<rparr>))
               else
                 Inr (s\<lparr>mru := fid # mru s,
                        alive_map := (alive_map s)(fid \<mapsto>
                          \<lparr>page_id = pid, frame_id = fid, evictable = True,
                           arc_status = MRU\<rparr>),
                        curr_size := curr_size s + 1\<rparr>)))"

definition SetEvictable :: "int \<Rightarrow> bool \<Rightarrow> ArcReplacer \<Rightarrow> error + ArcReplacer" where
  "SetEvictable fid set_evictable s =
     (case alive_map s fid of
        None \<Rightarrow> Inl (RuntimeError ''Frame id is invalid'' s)
      | Some frame_status \<Rightarrow>
          if evictable frame_status = set_evictable then Inr s
          else
            Inr (s\<lparr>alive_map := (alive_map s)(fid \<mapsto>
                     frame_status\<lparr>evictable := set_evictable\<rparr>),
                   curr_size := (if set_evictable then curr_size s + 1
                                 else curr_size s - 1)\<rparr>))"

definition Remove :: "int \<Rightarrow> ArcReplacer \<Rightarrow> error + ArcReplacer" where
  "Remove fid s =
     (case alive_map s fid of
        None \<Rightarrow> Inr s
      | Some frame_status \<Rightarrow>
          if \<not> evictable frame_status then
            Inl (RuntimeError ''Cannot remove a non-evictable frame'' s)
          else if arc_status frame_status = MRU then
            (if fid \<in> set (mru s) then
               Inr (s\<lparr>mru := remove1 fid (mru s),
                      alive_map := (alive_map s)(fid := None),
                      curr_size := curr_size s - 1\<rparr>)
             else Inl UndefinedBehavior)
          else if arc_status frame_status = MFU then
            (if fid \<in> set (mfu s) then
               Inr (s\<lparr>mfu := remove1 fid (mfu s),
                      alive_map := (alive_map s)(fid := None),
                      curr_size := curr_size s - 1\<rparr>)
             else Inl UndefinedBehavior)
          else
            Inr (s\<lparr>alive_map := (alive_map s)(fid := None),
                   curr_size := curr_size s - 1\<rparr>))"

definition ArcReplacer_Size :: "ArcReplacer \<Rightarrow> 64 word" where
  "ArcReplacer_Size s = curr_size s"

text \<open>Sequences of calls on one replacer; the run stops at the first call that fails.\<close>

datatype arc_op = OpRecordAccess int int | OpEvict | OpSetEvictable int bool | OpRemove int

fun arc_run :: "arc_op list \<Rightarrow> ArcReplacer \<Rightarrow> error + ArcReplacer" where
  "arc_run [] s = Inr s"
| "arc_run (OpRecordAccess f p # ops) s =
     (case RecordAccess f p s of Inl e \<Rightarrow> Inl e | Inr s' \<Rightarrow> arc_run ops s')"
| "arc_run (OpEvict # ops) s = arc_run ops (snd (Evict s))"
| "arc_run (OpSetEvictable f v # ops) s =
     (case SetEvictable f v s of Inl e \<Rightarrow> Inl e | Inr s' \<Rightarrow> arc_run ops s')"
| "arc_run (OpRemove f # ops) s =
     (case Remove f s of Inl e \<Rightarrow> Inl e | Inr s' \<Rightarrow> arc_run ops s')"

subsection \<open>Vocabulary of the eviction policy\<close>

text \<open>
  A frame is an eviction candidate when the alive index holds a status for it whose
  evictable flag is set.
\<close>

definition is_evictable :: "(int \<rightharpoonup> FrameStatus) \<Rightarrow> int \<Rightarrow> bool" where
  "is_evictable alive fid = (case alive fid of Some st \<Rightarrow> evictable st | None \<Rightarrow> False)"

definition has_evictable :: "ArcReplacer \<Rightarrow> int list \<Rightarrow> bool" where
  "has_evictable s l = list_ex (is_evictable (alive_map s)) l"

text \<open>
  \<open>evicts_from_mru s\<close>: \<^verbatim>\<open>Evict\<close> returns the candidate \<open>v\<close> of T1 nearest the LRU end
  (no candidate among the entries \<open>ys\<close> behind it), takes its node out of T1 with all other
  entries in their order, pushes its page at the front of B1, moves it from the alive to the
  ghost index and decrements the size. \<open>evicts_from_mfu\<close> is the same for T2 and B2.
\<close>

definition evicts_from_mru :: "ArcReplacer \<Rightarrow> bool" where
  "evicts_from_mru s \<longleftrightarrow>
     (\<exists>xs v ys st.
        mru s = xs @ v # ys \<and> (\<forall>y\<in>set ys. \<not> is_evictable (alive_map s) y) \<and>
        alive_map s v = Some st \<and> evictable st \<and>
        Evict s =
          (Some v,
           s\<lparr>mru := xs @ ys,
             mru_ghost := page_id st # mru_ghost s,
             ghost_map := (ghost_map s)(page_id st \<mapsto>
               \<lparr>page_id = page_id st, frame_id = v, evictable = False,
                arc_status = MRU_GHOST\<rparr>),
             alive_map := (alive_map s)(v := None),
             curr_size := curr_size s - 1\<rparr>))"

definition evicts_from_mfu :: "ArcReplacer \<Rightarrow> bool" where
  "evicts_from_mfu s \<longleftrightarrow>
     (\<exists>xs v ys st.
        mfu s = xs @ v # ys \<and> (\<forall>y\<in>set ys. \<not> is_evictable (alive_map s) y) \<and>
        alive_map s v = Some st \<and> evictable st \<and>
        Evict s =
          (Some v,
           s\<lparr>mfu := xs @ ys,
             mfu_ghost := page_id st # mfu_ghost s,
             ghost_map := (ghost_map s)(page_id st \<mapsto>
               \<lparr>page_id = page_id st, frame_id = v, evictable = False,
                arc_status = MFU_GHOST\<rparr>),
             alive_map := (alive_map s)(v := None),
             curr_size := curr_size s - 1\<rparr>))"

text \<open>
  An example state: capacity 4, frames 0 to 3 admitted in that order with pages 100 to 103,
  frame 0 made non-evictable.
\<close>

definition arc_pinned_example :: ArcReplacer where
  "arc_pinned_example =
     \<lparr>mru = [3, 2, 1, 0], mfu = [], mru_ghost = [], mfu_ghost = [],
      alive_map = [0 \<mapsto> \<lparr>page_id = 100, frame_id = 0, evictable = False, arc_status = MRU\<rparr>,
                   1 \<mapsto> \<lparr>page_id = 101, frame_id = 1, evictable = True, arc_status = MRU\<rparr>,
                   2 \<mapsto> \<lparr>page_id = 102, frame_id = 2, evictable = True, arc_status = MRU\<rparr>,
                   3 \<mapsto> \<lparr>page_id = 103, frame_id = 3, evictable = True, arc_status = MRU\<rparr>],
      ghost_map = Map.empty, curr_size = 3, mru_target_size = 0, replacer_size = 4\<rparr>"

subsection \<open>Frame ids within the capacity\<close>

text \<open>
  A frame id names a slot of the pool and lies in \<open>[0, n)\<close> for a pool of \<open>n\<close> frames.
  Frames enter the replacer through \<^verbatim>\<open>RecordAccess\<close> only, so a run respects the
  capacity when the frame ids of its \<^verbatim>\<open>RecordAccess\<close> calls do.
\<close>

fun arc_op_in_range :: "nat \<Rightarrow> arc_op \<Rightarrow> bool" where
  "arc_op_in_range n (OpRecordAccess f p) = (0 \<le> f \<and> f < int n)"
| "arc_op_in_range n OpEvict = True"
| "arc_op_in_range n (OpSetEvictable f v) = True"
| "arc_op_in_range n (OpRemove f) = True"

text \<open>
  The resident lists of such a run: no frame twice in a list, every frame of T1 within the
  capacity and alive with region T1, every frame of T2 alive with region T2.
\<close>

definition resident_inv :: "nat \<Rightarrow> ArcReplacer \<Rightarrow> bool" where
  "resident_inv n s \<longleftrightarrow>
     unat (replacer_size s) = n \<and> distinct (mru s) \<and> distinct (mfu s) \<and>
     (\<forall>f\<in>set (mru s).
        0 \<le> f \<and> f < int n \<and> map_option arc_status (alive_map s f) = Some MRU) \<and>
     (\<forall>f\<in>set (mfu s). map_option arc_status (alive_map s f) = Some MFU)"

text \<open>
  Two more example states. Capacity 2: frame 0 admitted with page 10, evicted, and
  admitted again with page 11, so that T1 and B1 hold one entry each. Capacity 1: frame 0
  admitted with page 10, so that T1 is saturated and B1 is empty.
\<close>

definition arc_trim_example :: ArcReplacer where
  "arc_trim_example =
     \<lparr>mru = [0], mfu = [], mru_ghost = [10], mfu_ghost = [],
      alive_map = [0 \<mapsto> \<lparr>page_id = 11, frame_id = 0, evictable = True, arc_status = MRU\<rparr>],
      ghost_map = [10 \<mapsto> \<lparr>page_id = 10, frame_id = 0, evictable = False,
                            arc_status = MRU_GHOST\<rparr>],
      curr_size = 1, mru_target_size = 0, replacer_size = 2\<rparr>"

definition arc_saturated_example :: ArcReplacer where
  "arc_saturated_example =
     \<lparr>mru = [0], mfu = [], mru_ghost = [], mfu_ghost = [],
      alive_map = [0 \<mapsto> \<lparr>page_id = 10, frame_id = 0, evictable = True, arc_status = MRU\<rparr>],
      ghost_map = Map.empty, curr_size = 1, mru_target_size = 0, replacer_size = 1\<rparr>"

section \<open>CLOCK replacer: invariant and termination\<close>

text \<open>Counting the tracked frames when one bit of \<^verbatim>\<open>pinned_\<close> changes.\<close>

lemma filter_update_False:
  "i < length xs \<Longrightarrow> xs ! i \<Longrightarrow>
   Suc (length (filter (\<lambda>b. b) (xs[i := False]))) = length (filter (\<lambda>b. b) xs)"
  by (induction xs arbitrary: i) (auto split: nat.splits)

lemma filter_update_True:
  "i < length xs \<Longrightarrow> \<not> xs ! i \<Longrightarrow>
   length (filter (\<lambda>b. b) (xs[i := True])) = Suc (length (filter (\<lambda>b. b) xs))"
  by (induction xs arbitrary: i) (auto split: nat.splits)

lemma filter_pos_ex: "0 < length (filter (\<lambda>b. b) xs) \<Longrightarrow> \<exists>i<length xs. xs ! i"
  by (metis filter_False length_greater_0_conv in_set_conv_nth)

text \<open>Every operation keeps the invariant; the loop steps of \<^verbatim>\<open>Victim\<close> first.\<close>

lemma Pin_inv: "clock_inv s \<Longrightarrow> clock_inv (Pin f s)"
  using filter_update_False [of "nat f" "pinned s"]
  by (auto simp: clock_inv_def Pin_def tracked_count_def)

lemma Unpin_inv: "clock_inv s \<Longrightarrow> clock_inv (Unpin f s)"
  using filter_update_True [of "nat f" "pinned s"]
  by (auto simp: clock_inv_def Unpin_def tracked_count_def)

lemma skip_inv:
  "clock_inv s \<Longrightarrow> 0 < num_pages s \<Longrightarrow>
   clock_inv (s\<lparr>clock_hand := (clock_hand s + 1) mod num_pages s\<rparr>)"
  by (simp add: clock_inv_def tracked_count_def)

lemma clear_inv:
  "clock_inv s \<Longrightarrow> 0 < num_pages s \<Longrightarrow>
   clock_inv (s\<lparr>reference_bits := (reference_bits s)[clock_hand s := False],
                clock_hand := (clock_hand s + 1) mod num_pages s\<rparr>)"
  by (simp add: clock_inv_def tracked_count_def)

lemma select_inv:
  "clock_inv s \<Longrightarrow> 0 < num_pages s \<Longrightarrow> pinned s ! clock_hand s \<Longrightarrow>
   clock_inv (s\<lparr>pinned := (pinned s)[clock_hand s := False],
                reference_bits := (reference_bits s)[clock_hand s := False],
                current_size := current_size s - 1,
                clock_hand := (clock_hand s + 1) mod num_pages s\<rparr>)"
  using filter_update_False [of "clock_hand s" "pinned s"]
  by (auto simp: clock_inv_def tracked_count_def)

lemma Victim_loop_inv:
  "clock_inv s \<Longrightarrow> 0 < num_pages s \<Longrightarrow> clock_inv (snd (Victim_loop s k))"
proof (induction s k rule: Victim_loop.induct)
  case (1 s scanned)
  show ?case
    using "1.prems" "1.IH" skip_inv [of s] clear_inv [of s] select_inv [of s]
    by (subst Victim_loop.simps) auto
qed

lemma inv_size_pos: "clock_inv s \<Longrightarrow> current_size s \<noteq> 0 \<Longrightarrow> 0 < num_pages s"
  by (auto simp: clock_inv_def tracked_count_def)

lemma Victim_inv: "clock_inv s \<Longrightarrow> clock_inv (snd (Victim s))"
  using Victim_loop_inv [of s 0] inv_size_pos [of s] by (simp add: Victim_def)

lemma Victim_fuel_inv:
  "Victim_fuel n s = Some (f, s') \<Longrightarrow> clock_inv s \<Longrightarrow> 0 < num_pages s \<Longrightarrow> clock_inv s'"
proof (induction n arbitrary: s)
  case 0
  then show ?case by simp
next
  case (Suc n)
  show ?case
    using Suc.prems Suc.IH skip_inv [of s] clear_inv [of s] select_inv [of s]
    by (auto split: if_splits)
qed

text \<open>A result of the loop cut off after \<open>n\<close> iterations is the result of the loop itself.\<close>

lemma Victim_fuel_while:
  "Victim_fuel n s = Some r \<Longrightarrow> Victim_while s = Some r"
proof (induction n arbitrary: s)
  case 0
  then show ?case by simp
next
  case (Suc n)
  show ?case
    using Suc.prems Suc.IH
    by (subst Victim_while.simps) (auto split: if_splits)
qed

text \<open>Arithmetic of the circular hand.\<close>

lemma mod_shift_neq:
  "h < N \<Longrightarrow> 0 < j \<Longrightarrow> j < N \<Longrightarrow> (h + j) mod N \<noteq> (h::nat)"
  by (cases "h + j < N") (auto simp: mod_if)

lemma mod_succ_shift: "(Suc h mod N + k) mod N = Suc (h + k) mod (N::nat)"
  by (simp add: mod_add_left_eq)

lemma mod_back: "h < N \<Longrightarrow> (Suc h mod N + (N - Suc 0)) mod N = (h::nat)"
  by (cases "Suc h < N") (auto simp: mod_if)

text \<open>
  Termination of the \<^verbatim>\<open>while (true)\<close> loop. A tracked frame \<open>k\<close> slots ahead of the
  hand whose reference bit is clear is reached, or another victim found, within \<open>k + 1\<close>
  iterations; a tracked frame \<open>k\<close> slots ahead whose bit may be set costs one more rotation,
  the one that clears it.
\<close>

lemma second_rotation:
  "clock_inv s \<Longrightarrow> k < num_pages s \<Longrightarrow> (clock_hand s + k) mod num_pages s = i \<Longrightarrow>
   pinned s ! i \<Longrightarrow> \<not> reference_bits s ! i \<Longrightarrow> k < n \<Longrightarrow>
   \<exists>r. Victim_fuel n s = Some r"
proof (induction k arbitrary: s n)
  case 0
  then obtain m where n: "n = Suc m" by (cases n) auto
  from 0 have "clock_hand s < num_pages s" by (auto simp: clock_inv_def)
  with 0 show ?case by (auto simp: n)
next
  case (Suc k)
  then obtain m where n: "n = Suc m" and km: "k < m" by (cases n) auto
  from Suc.prems have N: "0 < num_pages s" and h: "clock_hand s < num_pages s"
    by (auto simp: clock_inv_def)
  have neq: "i \<noteq> clock_hand s"
    using mod_shift_neq [OF h, of "Suc k"] Suc.prems(2,3) by simp
  show ?case
  proof (cases "pinned s ! clock_hand s")
    case False
    let ?s = "s\<lparr>clock_hand := (clock_hand s + 1) mod num_pages s\<rparr>"
    have "(clock_hand ?s + k) mod num_pages ?s = i"
      using Suc.prems(3) by (simp add: mod_succ_shift)
    then have "\<exists>r. Victim_fuel m ?s = Some r"
      using Suc.prems km skip_inv [OF Suc.prems(1) N]
      by (intro Suc.IH [where s = ?s]) simp_all
    with False show ?thesis by (simp add: n)
  next
    case True
    show ?thesis
    proof (cases "reference_bits s ! clock_hand s")
      case False
      with True show ?thesis by (simp add: n)
    next
      case rt: True
      let ?s = "s\<lparr>reference_bits := (reference_bits s)[clock_hand s := False],
                   clock_hand := (clock_hand s + 1) mod num_pages s\<rparr>"
      have "(clock_hand ?s + k) mod num_pages ?s = i"
        using Suc.prems(3) by (simp add: mod_succ_shift)
      then have "\<exists>r. Victim_fuel m ?s = Some r"
        using Suc.prems km clear_inv [OF Suc.prems(1) N] neq
        by (intro Suc.IH [where s = ?s]) simp_all
      with True rt show ?thesis by (simp add: n)
    qed
  qed
qed

lemma first_rotation:
  "clock_inv s \<Longrightarrow> k < num_pages s \<Longrightarrow> (clock_hand s + k) mod num_pages s = i \<Longrightarrow>
   pinned s ! i \<Longrightarrow> k + num_pages s < n \<Longrightarrow> \<exists>r. Victim_fuel n s = Some r"
proof (induction k arbitrary: s n)
  case 0
  then obtain m where n: "n = Suc m" and Nm: "num_pages s \<le> m" by (cases n) auto
  from 0 have N: "0 < num_pages s" and h: "clock_hand s < num_pages s"
    by (auto simp: clock_inv_def)
  from 0 h have p: "pinned s ! clock_hand s" by auto
  show ?case
  proof (cases "reference_bits s ! clock_hand s")
    case False
    with p show ?thesis by (simp add: n)
  next
    case True
    let ?s = "s\<lparr>reference_bits := (reference_bits s)[clock_hand s := False],
                 clock_hand := (clock_hand s + 1) mod num_pages s\<rparr>"
    have len: "clock_hand s < length (reference_bits s)"
      using "0.prems"(1) h by (simp add: clock_inv_def)
    have "(clock_hand ?s + (num_pages s - 1)) mod num_pages ?s = clock_hand s"
      using mod_back [OF h] by simp
    then have "\<exists>r. Victim_fuel m ?s = Some r"
      using p N Nm len clear_inv [OF "0.prems"(1) N]
      by (intro second_rotation [where s = ?s and k = "num_pages s - 1" and i = "clock_hand s"])
         simp_all
    with p True show ?thesis by (simp add: n)
  qed
next
  case (Suc k)
  then obtain m where n: "n = Suc m" and km: "k + num_pages s < m" by (cases n) auto
  from Suc.prems have N: "0 < num_pages s" by (auto simp: clock_inv_def)
  show ?case
  proof (cases "pinned s ! clock_hand s")
    case False
    let ?s = "s\<lparr>clock_hand := (clock_hand s + 1) mod num_pages s\<rparr>"
    have "(clock_hand ?s + k) mod num_pages ?s = i"
      using Suc.prems(3) by (simp add: mod_succ_shift)
    then have "\<exists>r. Victim_fuel m ?s = Some r"
      using Suc.prems km skip_inv [OF Suc.prems(1) N]
      by (intro Suc.IH [where s = ?s]) simp_all
    with False show ?thesis by (simp add: n)
  next
    case True
    show ?thesis
    proof (cases "reference_bits s ! clock_hand s")
      case False
      with True show ?thesis by (simp add: n)
    next
      case rt: True
      let ?s = "s\<lparr>reference_bits := (reference_bits s)[clock_hand s := False],
                   clock_hand := (clock_hand s + 1) mod num_pages s\<rparr>"
      have "(clock_hand ?s + k) mod num_pages ?s = i"
        using Suc.prems(3) by (simp add: mod_succ_shift)
      then have "\<exists>r. Victim_fuel m ?s = Some r"
        using Suc.prems km clear_inv [OF Suc.prems(1) N]
        by (intro Suc.IH [where s = ?s]) simp_all
      with True rt show ?thesis by (simp add: n)
    qed
  qed
qed

lemma offset_ex:
  "h < N \<Longrightarrow> i < N \<Longrightarrow> \<exists>k<N. (h + k) mod N = (i::nat)"
proof (cases "h \<le> i")
  case True
  assume "i < N"
  with True have "i - h < N \<and> (h + (i - h)) mod N = i" by simp
  then show ?thesis by blast
next
  case False
  assume "h < N" "i < N"
  with False have "i + N - h < N \<and> (h + (i + N - h)) mod N = i" by simp
  then show ?thesis by blast
qed

lemma Victim_fuel_returns:
  assumes "clock_inv s" "current_size s > 0"
  shows "\<exists>r. Victim_fuel (2 * num_pages s) s = Some r"
proof -
  from assms have h: "clock_hand s < num_pages s"
    by (auto simp: clock_inv_def tracked_count_def)
  from assms obtain i where i: "i < num_pages s" "pinned s ! i"
    using filter_pos_ex [of "pinned s"] by (auto simp: clock_inv_def tracked_count_def)
  from offset_ex [OF h i(1)] obtain k where k: "k < num_pages s"
    "(clock_hand s + k) mod num_pages s = i" by blast
  from k have "k + num_pages s < 2 * num_pages s" by simp
  from first_rotation [OF assms(1) k i(2) this] show ?thesis .
qed

lemma Victim_001_returns:
  assumes "clock_inv s" "current_size s > 0"
  shows "\<exists>f s'. Victim_001 s = Some (Some f, s') \<and>
           Victim_fuel (2 * num_pages s) s = Some (f, s') \<and> clock_inv s'"
proof -
  from Victim_fuel_returns [OF assms] obtain f s'
    where r: "Victim_fuel (2 * num_pages s) s = Some (f, s')" by force
  from assms have N: "0 < num_pages s" by (auto simp: clock_inv_def tracked_count_def)
  have "Victim_001 s = Some (Some f, s')"
    using assms(2) Victim_fuel_while [OF r] by (simp add: Victim_001_def)
  with r Victim_fuel_inv [OF r assms(1) N] show ?thesis by blast
qed

text \<open>The capacity never changes.\<close>

lemma Pin_num_pages: "num_pages (Pin f s) = num_pages s"
  by (simp add: Pin_def)

lemma Unpin_num_pages: "num_pages (Unpin f s) = num_pages s"
  by (simp add: Unpin_def)

lemma Victim_loop_num_pages: "num_pages (snd (Victim_loop s k)) = num_pages s"
proof (induction s k rule: Victim_loop.induct)
  case (1 s scanned)
  show ?case using "1.IH" by (subst Victim_loop.simps) auto
qed

lemma Victim_num_pages: "num_pages (snd (Victim s)) = num_pages s"
  by (simp add: Victim_def Victim_loop_num_pages)

lemma Victim_fuel_num_pages: "Victim_fuel n s = Some (f, s') \<Longrightarrow> num_pages s' = num_pages s"
proof (induction n arbitrary: s)
  case 0
  then show ?case by simp
next
  case (Suc n)
  show ?case
  proof (cases "pinned s ! clock_hand s")
    case False
    with Suc.prems have
      "Victim_fuel n (s\<lparr>clock_hand := (clock_hand s + 1) mod num_pages s\<rparr>) = Some (f, s')"
      by simp
    from Suc.IH [OF this] show ?thesis by simp
  next
    case True
    show ?thesis
    proof (cases "reference_bits s ! clock_hand s")
      case False
      with True Suc.prems show ?thesis by auto
    next
      case rt: True
      with True Suc.prems have
        "Victim_fuel n (s\<lparr>reference_bits := (reference_bits s)[clock_hand s := False],
             clock_hand := (clock_hand s + 1) mod num_pages s\<rparr>) = Some (f, s')"
        by simp
      from Suc.IH [OF this] show ?thesis by simp
    qed
  qed
qed

lemma clock_run_inv:
  "clock_inv s \<Longrightarrow> clock_inv (clock_run ops s) \<and> num_pages (clock_run ops s) = num_pages s"
proof (induction ops s rule: clock_run.induct)
  case (1 s)
  then show ?case by simp
next
  case (2 f ops s)
  then show ?case by (simp add: Pin_inv Pin_num_pages)
next
  case (3 f ops s)
  then show ?case by (simp add: Unpin_inv Unpin_num_pages)
next
  case (4 ops s)
  then show ?case by (simp add: Victim_inv Victim_num_pages)
qed

lemma Victim_001_total:
  assumes "clock_inv s"
  shows "\<exists>r s'. Victim_001 s = Some (r, s') \<and> clock_inv s' \<and> num_pages s' = num_pages s"
proof (cases "current_size s = 0")
  case True
  with assms show ?thesis by (simp add: Victim_001_def)
next
  case False
  then have "current_size s > 0" by simp
  from Victim_001_returns [OF assms this] obtain f s' where
    r: "Victim_001 s = Some (Some f, s')" "Victim_fuel (2 * num_pages s) s = Some (f, s')"
       "clock_inv s'" by blast
  with Victim_fuel_num_pages [OF r(2)] show ?thesis by simp
qed

lemma clock_run_001_inv:
  "clock_inv s \<Longrightarrow>
   \<exists>s'. clock_run_001 ops s = Some s' \<and> clock_inv s' \<and> num_pages s' = num_pages s"
proof (induction ops s rule: clock_run_001.induct)
  case (1 s)
  then show ?case by simp
next
  case (2 f ops s)
  then show ?case by (simp add: Pin_inv Pin_num_pages)
next
  case (3 f ops s)
  then show ?case by (simp add: Unpin_inv Unpin_num_pages)
next
  case (4 ops s)
  from Victim_001_total [OF "4.prems"] obtain r s1 where
    v: "Victim_001 s = Some (r, s1)" "clock_inv s1" "num_pages s1 = num_pages s" by blast
  from "4.IH" [OF v(1) refl v(2)] v show ?case by simp
qed

lemma ClockReplacer_new_inv: "clock_inv (ClockReplacer_new n) \<and> num_pages (ClockReplacer_new n) = n"
  by (auto simp: clock_inv_def ClockReplacer_new_def tracked_count_def)

lemma inv_I1: "clock_inv s \<Longrightarrow> num_pages s = n \<Longrightarrow> clock_I1 n s"
  by (cases n) (auto simp: clock_inv_def clock_I1_def ClockReplacer_Size_def)

lemma Victim_001_fuel:
  "current_size s \<noteq> 0 \<Longrightarrow> Victim_fuel n s = Some (f, s') \<Longrightarrow> Victim_001 s = Some (Some f, s')"
  using Victim_fuel_while [of n s "(f, s')"] by (simp add: Victim_001_def)

subsection \<open>Claim C9\<close>

text \<open>
  Claim C9, as amended: after construction with capacity \<open>n\<close> and after every sequence of
  \<^verbatim>\<open>Pin\<close>, \<^verbatim>\<open>Unpin\<close> and \<^verbatim>\<open>Victim\<close> calls, with either copy of
  \<^verbatim>\<open>Victim\<close>, the size equals the number of tracked frames, \<^verbatim>\<open>Size()\<close> returns it,
  and the hand is below \<open>n\<close> when \<open>n > 0\<close> and is 0 when \<open>n = 0\<close>. With the
  \<^verbatim>\<open>while (true)\<close> copy every call in the sequence returns.
\<close>

theorem clock_invariant:
  "clock_I1 n (clock_run ops (ClockReplacer_new n)) \<and>
   (\<exists>s. clock_run_001 ops (ClockReplacer_new n) = Some s \<and> clock_I1 n s)"
proof -
  have i: "clock_inv (ClockReplacer_new n)" "num_pages (ClockReplacer_new n) = n"
    using ClockReplacer_new_inv [of n] by simp_all
  from clock_run_inv [OF i(1), of ops] i(2)
  have a: "clock_I1 n (clock_run ops (ClockReplacer_new n))" by (simp add: inv_I1)
  from clock_run_001_inv [OF i(1), of ops] i(2)
  have b: "\<exists>s. clock_run_001 ops (ClockReplacer_new n) = Some s \<and> clock_I1 n s"
    by (auto simp: inv_I1)
  from a b show ?thesis by simp
qed

text \<open>
  The claim as stated puts the hand in \<open>[0, N)\<close> after construction. A replacer of capacity
  0 has its hand at 0, which is not below its capacity.
\<close>

theorem hand_at_capacity_zero:
  "\<not> clock_hand (ClockReplacer_new 0) < num_pages (ClockReplacer_new 0)"
  by (simp add: ClockReplacer_new_def)

text \<open>The spec's second scenario, continued: capacity 3, all frames unpinned, then victims.\<close>

lemma clock_example_run:
  "clock_run [OpUnpin 0, OpUnpin 1, OpUnpin 2, OpVictim, OpPin 2, OpVictim] (ClockReplacer_new 3) =
     \<lparr>num_pages = 3, clock_hand = 1, reference_bits = [False, False, False],
      pinned = [False, True, False], current_size = 1\<rparr>"
  by code_simp

theorem clock_invariant_witness:
  "clock_I1 3 (clock_run [OpUnpin 0, OpUnpin 1, OpUnpin 2, OpVictim, OpPin 2, OpVictim]
                 (ClockReplacer_new 3)) \<and>
   clock_I1 3 \<lparr>num_pages = 3, clock_hand = 1, reference_bits = [False, False, False],
      pinned = [False, True, False], current_size = 1\<rparr>"
  using clock_invariant [of 3 "[OpUnpin 0, OpUnpin 1, OpUnpin 2, OpVictim, OpPin 2, OpVictim]"]
    clock_example_run
  by simp

subsection \<open>Claim C3\<close>

text \<open>
  Claim C3 says that \<^verbatim>\<open>Victim\<close> on a state with size > 0 always returns a frame, within
  \<open>2N\<close> advancements of the hand, and that with every reference bit set one call clears
  the bits in a first rotation and selects in the second. The copy of \<^verbatim>\<open>Victim\<close> in
  \<^verbatim>\<open>src/buffer/clock_replacer.cpp\<close> stops after \<open>N\<close> advancements. On a replacer of
  capacity 1 after \<^verbatim>\<open>Unpin(0)\<close> the size is 1, the call clears the reference bit and
  returns false, leaving frame 0 tracked; the \<^verbatim>\<open>while (true)\<close> copy selects frame 0 on its
  second advancement. The same happens on the spec's first scenario (capacity 7, frames 1 to
  6 unpinned), where the spec expects frame 1.
\<close>

theorem Victim_bounded_scan_misses:
  "current_size (Unpin 0 (ClockReplacer_new 1)) = 1 \<and>
   Victim (Unpin 0 (ClockReplacer_new 1)) =
     (None, \<lparr>num_pages = 1, clock_hand = 0, reference_bits = [False], pinned = [True],
             current_size = 1\<rparr>) \<and>
   Victim_fuel 1 (Unpin 0 (ClockReplacer_new 1)) = None \<and>
   Victim_fuel 2 (Unpin 0 (ClockReplacer_new 1)) =
     Some (0, \<lparr>num_pages = 1, clock_hand = 0, reference_bits = [False], pinned = [False],
              current_size = 0\<rparr>) \<and>
   current_size (clock_run [OpUnpin 1, OpUnpin 2, OpUnpin 3, OpUnpin 4, OpUnpin 5, OpUnpin 6]
                   (ClockReplacer_new 7)) = 6 \<and>
   fst (Victim (clock_run [OpUnpin 1, OpUnpin 2, OpUnpin 3, OpUnpin 4, OpUnpin 5, OpUnpin 6]
                  (ClockReplacer_new 7))) = None \<and>
   map_option fst (Victim_fuel 9 (clock_run [OpUnpin 1, OpUnpin 2, OpUnpin 3, OpUnpin 4,
                  OpUnpin 5, OpUnpin 6] (ClockReplacer_new 7))) = Some 1"
  by code_simp

text \<open>
  The example is not an isolated one. Whenever every tracked frame has its reference bit
  set, which is the state right after the frames were unpinned, the one rotation of the
  bounded copy only clears bits, and the call returns false.
\<close>

lemma Victim_loop_all_referenced:
  "clock_inv s \<Longrightarrow> 0 < num_pages s \<Longrightarrow>
   (\<forall>j < num_pages s - scanned.
      pinned s ! ((clock_hand s + j) mod num_pages s) \<longrightarrow>
      reference_bits s ! ((clock_hand s + j) mod num_pages s)) \<Longrightarrow>
   fst (Victim_loop s scanned) = None"
proof (induction s scanned rule: Victim_loop.induct)
  case (1 s scanned)
  show ?case
  proof (cases "scanned < num_pages s")
    case False
    then show ?thesis by (subst Victim_loop.simps) simp
  next
    case True
    from "1.prems" have h: "clock_hand s < num_pages s" by (auto simp: clock_inv_def)
    from True "1.prems"(3) h have here: "pinned s ! clock_hand s \<longrightarrow> reference_bits s ! clock_hand s"
      by (auto dest: spec [of _ 0])
    have shift: "\<And>j. j < num_pages s - (scanned + 1) \<Longrightarrow>
        pinned s ! ((Suc (clock_hand s) mod num_pages s + j) mod num_pages s) \<longrightarrow>
        reference_bits s ! ((Suc (clock_hand s) mod num_pages s + j) mod num_pages s)"
    proof -
      fix j assume "j < num_pages s - (scanned + 1)"
      then have "Suc j < num_pages s - scanned" by simp
      with "1.prems"(3) show "pinned s ! ((Suc (clock_hand s) mod num_pages s + j) mod num_pages s) \<longrightarrow>
        reference_bits s ! ((Suc (clock_hand s) mod num_pages s + j) mod num_pages s)"
        unfolding mod_succ_shift by (metis add_Suc_right)
    qed
    have away: "\<And>j. j < num_pages s - (scanned + 1) \<Longrightarrow>
        (Suc (clock_hand s) mod num_pages s + j) mod num_pages s \<noteq> clock_hand s"
    proof -
      fix j assume "j < num_pages s - (scanned + 1)"
      then have "Suc j < num_pages s" by simp
      from mod_shift_neq [OF h _ this]
      show "(Suc (clock_hand s) mod num_pages s + j) mod num_pages s \<noteq> clock_hand s"
        unfolding mod_succ_shift by simp
    qed
    show ?thesis
    proof (cases "pinned s ! clock_hand s")
      case False
      let ?s = "s\<lparr>clock_hand := (clock_hand s + 1) mod num_pages s\<rparr>"
      have "fst (Victim_loop ?s (scanned + 1)) = None"
        using True False "1.prems" shift skip_inv [OF "1.prems"(1,2)]
        by (intro "1.IH"(1)) simp_all
      with True False show ?thesis by (subst Victim_loop.simps) simp
    next
      case p: True
      with here have r: "reference_bits s ! clock_hand s" by simp
      let ?s = "s\<lparr>reference_bits := (reference_bits s)[clock_hand s := False],
                   clock_hand := (clock_hand s + 1) mod num_pages s\<rparr>"
      have "\<forall>j < num_pages ?s - (scanned + 1).
              pinned ?s ! ((clock_hand ?s + j) mod num_pages ?s) \<longrightarrow>
              reference_bits ?s ! ((clock_hand ?s + j) mod num_pages ?s)"
      proof (intro allI impI)
        fix j
        assume j: "j < num_pages ?s - (scanned + 1)"
          and pj: "pinned ?s ! ((clock_hand ?s + j) mod num_pages ?s)"
        from j have j': "j < num_pages s - (scanned + 1)" by simp
        from pj shift [OF j']
        have "reference_bits s ! ((Suc (clock_hand s) mod num_pages s + j) mod num_pages s)"
          by simp
        with away [OF j', symmetric]
        show "reference_bits ?s ! ((clock_hand ?s + j) mod num_pages ?s)" by simp
      qed
      then have "fst (Victim_loop ?s (scanned + 1)) = None"
        using True p r "1.prems" clear_inv [OF "1.prems"(1,2)]
        by (intro "1.IH"(2)) simp_all
      with True p r show ?thesis by (subst Victim_loop.simps) simp
    qed
  qed
qed

lemma Victim_all_referenced:
  assumes "clock_inv s" and "\<forall>i < num_pages s. pinned s ! i \<longrightarrow> reference_bits s ! i"
  shows "fst (Victim s) = None"
proof (cases "current_size s = 0")
  case True
  then show ?thesis by (simp add: Victim_def)
next
  case False
  with assms(1) have N: "0 < num_pages s" by (rule inv_size_pos)
  have "fst (Victim_loop s 0) = None"
    using assms N by (intro Victim_loop_all_referenced) simp_all
  with False show ?thesis by (simp add: Victim_def)
qed

text \<open>
  The \<^verbatim>\<open>while (true)\<close> copy does what the claim says on every state that satisfies the
  invariant: see \<open>Victim_001_returns\<close> above. On the example it returns frame 0.
\<close>

lemma Victim_001_example:
  "Victim_001 (Unpin 0 (ClockReplacer_new 1)) =
     Some (Some 0, \<lparr>num_pages = 1, clock_hand = 0, reference_bits = [False], pinned = [False],
                    current_size = 0\<rparr>)"
proof -
  have "current_size (Unpin 0 (ClockReplacer_new 1)) \<noteq> 0" by code_simp
  moreover have "Victim_fuel 2 (Unpin 0 (ClockReplacer_new 1)) =
     Some (0, \<lparr>num_pages = 1, clock_hand = 0, reference_bits = [False], pinned = [False],
              current_size = 0\<rparr>)" by code_simp
  ultimately show ?thesis by (rule Victim_001_fuel)
qed

section \<open>ARC replacer: eviction\<close>

text \<open>
  The scan finds nothing exactly when the list has no candidate; otherwise it splits the list
  at the first candidate in scan order.
\<close>

lemma scan_None:
  "(EvictInternal_scan alive r = None) = (\<forall>f\<in>set r. \<not> is_evictable alive f)"
  by (induction r) (auto simp: is_evictable_def split: option.splits)

lemma scan_Some:
  "EvictInternal_scan alive r = Some (v, st, l) \<Longrightarrow>
   \<exists>ys zs. r = ys @ v # zs \<and> l = ys @ zs \<and> (\<forall>y\<in>set ys. \<not> is_evictable alive y) \<and>
           alive v = Some st \<and> evictable st"
proof (induction r arbitrary: l)
  case Nil
  then show ?case by simp
next
  case (Cons f r)
  show ?case
  proof (cases "is_evictable alive f")
    case True
    with Cons.prems have "v = f \<and> l = r \<and> alive f = Some st \<and> evictable st"
      by (auto simp: is_evictable_def split: option.splits)
    then have "f # r = [] @ v # r \<and> l = [] @ r \<and> (\<forall>y\<in>set []. \<not> is_evictable alive y) \<and>
               alive v = Some st \<and> evictable st" by simp
    then show ?thesis by blast
  next
    case False
    with Cons.prems obtain l' where l': "EvictInternal_scan alive r = Some (v, st, l')" "l = f # l'"
      by (auto simp: is_evictable_def split: option.splits if_splits)
    from Cons.IH [OF l'(1)] obtain ys zs where
      "r = ys @ v # zs" "l' = ys @ zs" "\<forall>y\<in>set ys. \<not> is_evictable alive y"
      "alive v = Some st" "evictable st" by blast
    with False l'(2) have "f # r = (f # ys) @ v # zs \<and> l = (f # ys) @ zs \<and>
        (\<forall>y\<in>set (f # ys). \<not> is_evictable alive y) \<and> alive v = Some st \<and> evictable st"
      by simp
    then show ?thesis by blast
  qed
qed

lemma EvictInternal_None:
  "\<forall>f\<in>set l. \<not> is_evictable (alive_map s) f \<Longrightarrow>
   EvictInternal l gs g s = (None, l, g, s)"
  using scan_None [of "alive_map s" "rev l"] by (simp add: EvictInternal_def)

lemma EvictInternal_Some:
  assumes "\<exists>f\<in>set l. is_evictable (alive_map s) f"
  shows "\<exists>xs v ys st. l = xs @ v # ys \<and> (\<forall>y\<in>set ys. \<not> is_evictable (alive_map s) y) \<and>
           alive_map s v = Some st \<and> evictable st \<and>
           EvictInternal l gs g s =
             (Some v, xs @ ys, page_id st # g,
              s\<lparr>ghost_map := (ghost_map s)(page_id st \<mapsto>
                   \<lparr>page_id = page_id st, frame_id = v, evictable = False, arc_status = gs\<rparr>),
                alive_map := (alive_map s)(v := None),
                curr_size := curr_size s - 1\<rparr>)"
proof -
  from assms scan_None [of "alive_map s" "rev l"] obtain v st r
    where sc: "EvictInternal_scan (alive_map s) (rev l) = Some (v, st, r)" by auto
  from scan_Some [OF sc] obtain ys zs where
    r: "rev l = ys @ v # zs" "r = ys @ zs" "\<forall>y\<in>set ys. \<not> is_evictable (alive_map s) y"
       "alive_map s v = Some st" "evictable st" by blast
  from r(1) have l: "l = rev zs @ v # rev ys"
    by (metis rev_append rev.simps(2) rev_rev_ident append.assoc append_Cons append_Nil)
  have "EvictInternal l gs g s =
             (Some v, rev zs @ rev ys, page_id st # g,
              s\<lparr>ghost_map := (ghost_map s)(page_id st \<mapsto>
                   \<lparr>page_id = page_id st, frame_id = v, evictable = False, arc_status = gs\<rparr>),
                alive_map := (alive_map s)(v := None),
                curr_size := curr_size s - 1\<rparr>)"
    using sc r(2) by (simp add: EvictInternal_def)
  with l r(3,4,5) show ?thesis by (intro exI [of _ "rev zs"] exI [of _ v] exI [of _ "rev ys"] exI [of _ st]) simp
qed

text \<open>
  The four ways \<^verbatim>\<open>Evict\<close> finds a victim, and the one way it finds none.
\<close>

lemma Evict_mru_first:
  assumes "\<not> length (mru s) < unat (mru_target_size s)"
    and "\<exists>f\<in>set (mru s). is_evictable (alive_map s) f"
  shows "evicts_from_mru s"
proof -
  from EvictInternal_Some [OF assms(2), of MRU_GHOST "mru_ghost s"] obtain xs v ys st where
    e: "mru s = xs @ v # ys" "\<forall>y\<in>set ys. \<not> is_evictable (alive_map s) y"
       "alive_map s v = Some st" "evictable st"
       "EvictInternal (mru s) MRU_GHOST (mru_ghost s) s =
             (Some v, xs @ ys, page_id st # mru_ghost s,
              s\<lparr>ghost_map := (ghost_map s)(page_id st \<mapsto>
                   \<lparr>page_id = page_id st, frame_id = v, evictable = False, arc_status = MRU_GHOST\<rparr>),
                alive_map := (alive_map s)(v := None),
                curr_size := curr_size s - 1\<rparr>)" by blast
  have "Evict s = (Some v,
           s\<lparr>mru := xs @ ys,
             mru_ghost := page_id st # mru_ghost s,
             ghost_map := (ghost_map s)(page_id st \<mapsto>
               \<lparr>page_id = page_id st, frame_id = v, evictable = False,
                arc_status = MRU_GHOST\<rparr>),
             alive_map := (alive_map s)(v := None),
             curr_size := curr_size s - 1\<rparr>)"
    using assms(1) e(5) by (simp add: Evict_def)
  with e(1-4) show ?thesis unfolding evicts_from_mru_def by blast
qed

lemma Evict_mfu_first:
  assumes "length (mru s) < unat (mru_target_size s)"
    and "\<exists>f\<in>set (mfu s). is_evictable (alive_map s) f"
  shows "evicts_from_mfu s"
proof -
  from EvictInternal_Some [OF assms(2), of MFU_GHOST "mfu_ghost s"] obtain xs v ys st where
    e: "mfu s = xs @ v # ys" "\<forall>y\<in>set ys. \<not> is_evictable (alive_map s) y"
       "alive_map s v = Some st" "evictable st"
       "EvictInternal (mfu s) MFU_GHOST (mfu_ghost s) s =
             (Some v, xs @ ys, page_id st # mfu_ghost s,
              s\<lparr>ghost_map := (ghost_map s)(page_id st \<mapsto>
                   \<lparr>page_id = page_id st, frame_id = v, evictable = False, arc_status = MFU_GHOST\<rparr>),
                alive_map := (alive_map s)(v := None),
                curr_size := curr_size s - 1\<rparr>)" by blast
  have "Evict s = (Some v,
           s\<lparr>mfu := xs @ ys,
             mfu_ghost := page_id st # mfu_ghost s,
             ghost_map := (ghost_map s)(page_id st \<mapsto>
               \<lparr>page_id = page_id st, frame_id = v, evictable = False,
                arc_status = MFU_GHOST\<rparr>),
             alive_map := (alive_map s)(v := None),
             curr_size := curr_size s - 1\<rparr>)"
    using assms(1) e(5) by (simp add: Evict_def)
  with e(1-4) show ?thesis unfolding evicts_from_mfu_def by blast
qed

lemma Evict_mru_second:
  assumes "length (mru s) < unat (mru_target_size s)"
    and "\<forall>f\<in>set (mfu s). \<not> is_evictable (alive_map s) f"
    and "\<exists>f\<in>set (mru s). is_evictable (alive_map s) f"
  shows "evicts_from_mru s"
proof -
  from EvictInternal_Some [OF assms(3), of MRU_GHOST "mru_ghost s"] obtain xs v ys st where
    e: "mru s = xs @ v # ys" "\<forall>y\<in>set ys. \<not> is_evictable (alive_map s) y"
       "alive_map s v = Some st" "evictable st"
       "EvictInternal (mru s) MRU_GHOST (mru_ghost s) s =
             (Some v, xs @ ys, page_id st # mru_ghost s,
              s\<lparr>ghost_map := (ghost_map s)(page_id st \<mapsto>
                   \<lparr>page_id = page_id st, frame_id = v, evictable = False, arc_status = MRU_GHOST\<rparr>),
                alive_map := (alive_map s)(v := None),
                curr_size := curr_size s - 1\<rparr>)" by blast
  have "Evict s = (Some v,
           s\<lparr>mru := xs @ ys,
             mru_ghost := page_id st # mru_ghost s,
             ghost_map := (ghost_map s)(page_id st \<mapsto>
               \<lparr>page_id = page_id st, frame_id = v, evictable = False,
                arc_status = MRU_GHOST\<rparr>),
             alive_map := (alive_map s)(v := None),
             curr_size := curr_size s - 1\<rparr>)"
    using assms(1) e(5) EvictInternal_None [OF assms(2), of MFU_GHOST "mfu_ghost s"]
    by (simp add: Evict_def)
  with e(1-4) show ?thesis unfolding evicts_from_mru_def by blast
qed

lemma Evict_mfu_second:
  assumes "\<not> length (mru s) < unat (mru_target_size s)"
    and "\<forall>f\<in>set (mru s). \<not> is_evictable (alive_map s) f"
    and "\<exists>f\<in>set (mfu s). is_evictable (alive_map s) f"
  shows "evicts_from_mfu s"
proof -
  from EvictInternal_Some [OF assms(3), of MFU_GHOST "mfu_ghost s"] obtain xs v ys st where
    e: "mfu s = xs @ v # ys" "\<forall>y\<in>set ys. \<not> is_evictable (alive_map s) y"
       "alive_map s v = Some st" "evictable st"
       "EvictInternal (mfu s) MFU_GHOST (mfu_ghost s) s =
             (Some v, xs @ ys, page_id st # mfu_ghost s,
              s\<lparr>ghost_map := (ghost_map s)(page_id st \<mapsto>
                   \<lparr>page_id = page_id st, frame_id = v, evictable = False, arc_status = MFU_GHOST\<rparr>),
                alive_map := (alive_map s)(v := None),
                curr_size := curr_size s - 1\<rparr>)" by blast
  have "Evict s = (Some v,
           s\<lparr>mfu := xs @ ys,
             mfu_ghost := page_id st # mfu_ghost s,
             ghost_map := (ghost_map s)(page_id st \<mapsto>
               \<lparr>page_id = page_id st, frame_id = v, evictable = False,
                arc_status = MFU_GHOST\<rparr>),
             alive_map := (alive_map s)(v := None),
             curr_size := curr_size s - 1\<rparr>)"
    using assms(1) e(5) EvictInternal_None [OF assms(2), of MRU_GHOST "mru_ghost s"]
    by (simp add: Evict_def)
  with e(1-4) show ?thesis unfolding evicts_from_mfu_def by blast
qed

lemma Evict_none:
  assumes "\<forall>f\<in>set (mru s). \<not> is_evictable (alive_map s) f"
    and "\<forall>f\<in>set (mfu s). \<not> is_evictable (alive_map s) f"
  shows "Evict s = (None, s)"
  using EvictInternal_None [OF assms(1), of MRU_GHOST "mru_ghost s"]
    EvictInternal_None [OF assms(2), of MFU_GHOST "mfu_ghost s"]
  by (simp add: Evict_def)

lemma evicts_from_mru_Some: "evicts_from_mru s \<Longrightarrow> fst (Evict s) \<noteq> None"
  by (auto simp: evicts_from_mru_def)

lemma evicts_from_mfu_Some: "evicts_from_mfu s \<Longrightarrow> fst (Evict s) \<noteq> None"
  by (auto simp: evicts_from_mfu_def)

lemma Evict_Some_cases:
  assumes "fst (Evict s) \<noteq> None"
  shows "evicts_from_mru s \<or> evicts_from_mfu s"
proof (cases "\<exists>f\<in>set (mru s). is_evictable (alive_map s) f")
  case True
  then show ?thesis
    using Evict_mru_first [of s] Evict_mru_second [of s] Evict_mfu_first [of s] by blast
next
  case False
  have "\<exists>f\<in>set (mfu s). is_evictable (alive_map s) f"
  proof (rule ccontr)
    assume "\<not> (\<exists>f\<in>set (mfu s). is_evictable (alive_map s) f)"
    with False have "Evict s = (None, s)" by (intro Evict_none) blast+
    with assms show False by simp
  qed
  with False show ?thesis
    using Evict_mfu_first [of s] Evict_mfu_second [of s] by blast
qed

lemma Evict_target: "mru_target_size (snd (Evict s)) = mru_target_size s"
  by (auto simp: Evict_def EvictInternal_def split: option.splits prod.splits)

text \<open>
  The example state is the result of five calls on a new replacer of capacity 4.
\<close>

lemma arc_pinned_example_reachable:
  "arc_run [OpRecordAccess 0 100, OpSetEvictable 0 False, OpRecordAccess 1 101, OpRecordAccess 2 102,
            OpRecordAccess 3 103] (ArcReplacer_new 4) = Inr arc_pinned_example"
  by (simp add: ArcReplacer_new_def RecordAccess_def SetEvictable_def arc_pinned_example_def)

subsection \<open>Claim C4\<close>

text \<open>
  Claim C4: \<^verbatim>\<open>Evict\<close> takes T1 as the primary list iff \<open>|T1| \<ge> p\<close> and T2 otherwise. If
  the primary list has a candidate, the victim is its candidate nearest the LRU end; if it has
  none and the other list has one, the victim is the other list's candidate nearest the LRU
  end; the entries that were skipped, and all others, keep their relative order. It returns
  none iff neither list has a candidate, and then changes nothing.
\<close>

theorem Evict_policy:
  "(if length (mru s) \<ge> unat (mru_target_size s) then
      (if has_evictable s (mru s) then evicts_from_mru s
       else if has_evictable s (mfu s) then evicts_from_mfu s
       else Evict s = (None, s))
    else
      (if has_evictable s (mfu s) then evicts_from_mfu s
       else if has_evictable s (mru s) then evicts_from_mru s
       else Evict s = (None, s))) \<and>
   (fst (Evict s) = None \<longleftrightarrow> \<not> has_evictable s (mru s) \<and> \<not> has_evictable s (mfu s))"
proof -
  have A: "?thesis" if "\<not> has_evictable s (mru s)" "\<not> has_evictable s (mfu s)"
    using that Evict_none [of s] by (simp add: has_evictable_def list_ex_iff)
  have B: "?thesis" if "\<not> length (mru s) < unat (mru_target_size s)" "has_evictable s (mru s)"
    using that Evict_mru_first [of s] evicts_from_mru_Some [of s]
    by (simp add: has_evictable_def list_ex_iff)
  have C: "?thesis" if "length (mru s) < unat (mru_target_size s)" "has_evictable s (mfu s)"
    using that Evict_mfu_first [of s] evicts_from_mfu_Some [of s]
    by (simp add: has_evictable_def list_ex_iff)
  have D: "?thesis" if "length (mru s) < unat (mru_target_size s)"
     "\<not> has_evictable s (mfu s)" "has_evictable s (mru s)"
    using that Evict_mru_second [of s] evicts_from_mru_Some [of s]
    by (simp add: has_evictable_def list_ex_iff)
  have E: "?thesis" if "\<not> length (mru s) < unat (mru_target_size s)"
     "\<not> has_evictable s (mru s)" "has_evictable s (mfu s)"
    using that Evict_mfu_second [of s] evicts_from_mfu_Some [of s]
    by (simp add: has_evictable_def list_ex_iff)
  from A B C D E show ?thesis by blast
qed

text \<open>
  On the example state T1 is primary; frame 0 at the LRU end is not evictable and is skipped,
  frame 1 is the victim, and frame 0 stays behind frames 3 and 2.
\<close>

theorem Evict_policy_witness:
  "unat (mru_target_size arc_pinned_example) \<le> length (mru arc_pinned_example) \<and>
   has_evictable arc_pinned_example (mru arc_pinned_example) \<and>
   evicts_from_mru arc_pinned_example \<and>
   fst (Evict arc_pinned_example) = Some 1 \<and>
   mru (snd (Evict arc_pinned_example)) = [3, 2, 0] \<and>
   mru_ghost (snd (Evict arc_pinned_example)) = [101]"
  using Evict_policy [of arc_pinned_example]
  by (simp add: arc_pinned_example_def has_evictable_def is_evictable_def Evict_def
      EvictInternal_def)

subsection \<open>Claim C5\<close>

text \<open>
  Claim C5 (ghost round-trip): if \<^verbatim>\<open>Evict\<close> returns frame \<open>f\<close> whose page was
  \<open>page_id st\<close>, then that page is at the MRU end of the matching ghost list and in the
  ghost index, and an immediately following \<^verbatim>\<open>RecordAccess\<close> of that page for any frame
  \<open>f'\<close> that is not resident is a ghost hit: it returns, admits \<open>f'\<close> at the MRU end of T2
  with region T2 and \<open>evictable = true\<close>, drops the ghost entry and increments the size.
\<close>

theorem ghost_round_trip:
  assumes "Evict s = (Some f, s1)" and "alive_map s f = Some st" and "alive_map s1 f' = None"
  shows "(mru_ghost s1 = page_id st # mru_ghost s \<and>
          ghost_map s1 (page_id st) =
            Some \<lparr>page_id = page_id st, frame_id = f, evictable = False, arc_status = MRU_GHOST\<rparr>
          \<or>
          mfu_ghost s1 = page_id st # mfu_ghost s \<and>
          ghost_map s1 (page_id st) =
            Some \<lparr>page_id = page_id st, frame_id = f, evictable = False, arc_status = MFU_GHOST\<rparr>) \<and>
         (\<exists>s2. RecordAccess f' (page_id st) s1 = Inr s2 \<and>
               mfu s2 = f' # mfu s1 \<and> mru s2 = mru s1 \<and>
               alive_map s2 = (alive_map s1)(f' \<mapsto>
                 \<lparr>page_id = page_id st, frame_id = f', evictable = True, arc_status = MFU\<rparr>) \<and>
               ghost_map s2 = (ghost_map s1)(page_id st := None) \<and>
               curr_size s2 = curr_size s1 + 1)"
proof -
  from assms(1) have "fst (Evict s) \<noteq> None" by simp
  then have "evicts_from_mru s \<or> evicts_from_mfu s" by (rule Evict_Some_cases)
  then show ?thesis
  proof
    assume "evicts_from_mru s"
    then obtain xs ys st' where
      s1: "s1 = s\<lparr>mru := xs @ ys,
             mru_ghost := page_id st' # mru_ghost s,
             ghost_map := (ghost_map s)(page_id st' \<mapsto>
               \<lparr>page_id = page_id st', frame_id = f, evictable = False,
                arc_status = MRU_GHOST\<rparr>),
             alive_map := (alive_map s)(f := None),
             curr_size := curr_size s - 1\<rparr>" and "alive_map s f = Some st'"
      using assms(1) by (auto simp: evicts_from_mru_def)
    with assms(2) have st: "st' = st" by simp
    from assms(3) have fr: "((alive_map s)(f := None)) f' = None" by (simp add: s1)
    show ?thesis
      using fr unfolding s1 st by (simp add: RecordAccess_def)
  next
    assume "evicts_from_mfu s"
    then obtain xs ys st' where
      s1: "s1 = s\<lparr>mfu := xs @ ys,
             mfu_ghost := page_id st' # mfu_ghost s,
             ghost_map := (ghost_map s)(page_id st' \<mapsto>
               \<lparr>page_id = page_id st', frame_id = f, evictable = False,
                arc_status = MFU_GHOST\<rparr>),
             alive_map := (alive_map s)(f := None),
             curr_size := curr_size s - 1\<rparr>" and "alive_map s f = Some st'"
      using assms(1) by (auto simp: evicts_from_mfu_def)
    with assms(2) have st: "st' = st" by simp
    from assms(3) have fr: "((alive_map s)(f := None)) f' = None" by (simp add: s1)
    show ?thesis
      using fr unfolding s1 st by (simp add: RecordAccess_def)
  qed
qed

text \<open>
  On the example state: frame 1 with page 101 is evicted, and the frame is reused for the
  same page.
\<close>

theorem ghost_round_trip_witness:
  "fst (Evict arc_pinned_example) = Some 1 \<and>
   alive_map arc_pinned_example 1 =
     Some \<lparr>page_id = 101, frame_id = 1, evictable = True, arc_status = MRU\<rparr> \<and>
   alive_map (snd (Evict arc_pinned_example)) 1 = None \<and>
   (\<exists>s2. RecordAccess 1 101 (snd (Evict arc_pinned_example)) = Inr s2 \<and>
      mfu s2 = 1 # mfu (snd (Evict arc_pinned_example)) \<and> mfu s2 = [1] \<and>
      alive_map s2 1 = Some \<lparr>page_id = 101, frame_id = 1, evictable = True, arc_status = MFU\<rparr> \<and>
      curr_size s2 = curr_size (snd (Evict arc_pinned_example)) + 1 \<and> curr_size s2 = 3)"
  using ghost_round_trip [of arc_pinned_example 1 "snd (Evict arc_pinned_example)"
      "\<lparr>page_id = 101, frame_id = 1, evictable = True, arc_status = MRU\<rparr>" 1]
  by (simp add: arc_pinned_example_def Evict_def EvictInternal_def RecordAccess_def)

section \<open>ARC replacer: the other operations\<close>

subsection \<open>Claim C6\<close>

text \<open>
  Claim C6: a \<^verbatim>\<open>RecordAccess\<close> whose frame is resident is decided by the frame alone. A
  frame of T1 is removed from T1 and pushed at the MRU end of T2 with region T2; a frame of
  T2 is moved to the MRU end of T2. The result does not depend on the page argument, and
  \<open>p\<close>, the size, the frame's evictable flag and stored page and the ghost side are
  unchanged.
\<close>

theorem RecordAccess_resident:
  assumes "alive_map s f = Some st"
  shows "(arc_status st = MRU \<and> f \<in> set (mru s) \<longrightarrow>
            RecordAccess f pid s =
              Inr (s\<lparr>mru := remove1 f (mru s), mfu := f # mfu s,
                     alive_map := (alive_map s)(f \<mapsto> st\<lparr>arc_status := MFU\<rparr>)\<rparr>)) \<and>
         (arc_status st = MFU \<and> f \<in> set (mfu s) \<longrightarrow>
            RecordAccess f pid s = Inr (s\<lparr>mfu := f # remove1 f (mfu s)\<rparr>)) \<and>
         RecordAccess f pid' s = RecordAccess f pid s \<and>
         (\<forall>s'. RecordAccess f pid s = Inr s' \<longrightarrow>
            mru_target_size s' = mru_target_size s \<and> curr_size s' = curr_size s \<and>
            map_option evictable (alive_map s' f) = Some (evictable st) \<and>
            map_option page_id (alive_map s' f) = Some (page_id st) \<and>
            mru_ghost s' = mru_ghost s \<and> mfu_ghost s' = mfu_ghost s \<and>
            ghost_map s' = ghost_map s)"
  using assms by (auto simp: RecordAccess_def)

text \<open>
  On the example state: frame 2 of T1, accessed with a page that is not its own.
\<close>

theorem RecordAccess_resident_witness:
  "alive_map arc_pinned_example 2 =
     Some \<lparr>page_id = 102, frame_id = 2, evictable = True, arc_status = MRU\<rparr> \<and>
   2 \<in> set (mru arc_pinned_example) \<and>
   RecordAccess 2 999 arc_pinned_example = RecordAccess 2 102 arc_pinned_example \<and>
   (\<exists>s'. RecordAccess 2 999 arc_pinned_example = Inr s' \<and> mru s' = [3, 1, 0] \<and> mfu s' = [2] \<and>
      alive_map s' 2 = Some \<lparr>page_id = 102, frame_id = 2, evictable = True, arc_status = MFU\<rparr> \<and>
      mru_target_size s' = 0 \<and> curr_size s' = 3)"
  using RecordAccess_resident [of arc_pinned_example 2
      "\<lparr>page_id = 102, frame_id = 2, evictable = True, arc_status = MRU\<rparr>" 999 102]
  by (simp add: arc_pinned_example_def RecordAccess_def)

subsection \<open>Claim C7\<close>

text \<open>
  Claim C7: \<^verbatim>\<open>SetEvictable\<close> fails iff the frame is absent from the alive index, and
  then throws with the replacer unchanged. Otherwise it returns: with the flag already equal
  to the argument nothing changes; else the flag is flipped and the size goes up or down by
  exactly one. Region, the lists, the ghost side, the other frames and \<open>p\<close> are untouched.
\<close>

theorem SetEvictable_spec:
  "((\<exists>e. SetEvictable f v s = Inl e) \<longleftrightarrow> alive_map s f = None) \<and>
   (alive_map s f = None \<longrightarrow> SetEvictable f v s = Inl (RuntimeError ''Frame id is invalid'' s)) \<and>
   (\<forall>st. alive_map s f = Some st \<longrightarrow>
      (\<exists>s'. SetEvictable f v s = Inr s' \<and>
         (evictable st = v \<longrightarrow> s' = s) \<and>
         (evictable st \<noteq> v \<longrightarrow>
            alive_map s' f = Some (st\<lparr>evictable := v\<rparr>) \<and>
            curr_size s' = (if v then curr_size s + 1 else curr_size s - 1)) \<and>
         map_option arc_status (alive_map s' f) = Some (arc_status st) \<and>
         (\<forall>g. g \<noteq> f \<longrightarrow> alive_map s' g = alive_map s g) \<and>
         mru s' = mru s \<and> mfu s' = mfu s \<and> mru_ghost s' = mru_ghost s \<and>
         mfu_ghost s' = mfu_ghost s \<and> ghost_map s' = ghost_map s \<and>
         mru_target_size s' = mru_target_size s \<and> replacer_size s' = replacer_size s))"
  by (auto simp: SetEvictable_def split: option.splits)

text \<open>
  On the example state: an unknown frame, the pinned frame 0 pinned again, and frame 0
  released.
\<close>

theorem SetEvictable_spec_witness:
  "alive_map arc_pinned_example 7 = None \<and>
   SetEvictable 7 True arc_pinned_example =
     Inl (RuntimeError ''Frame id is invalid'' arc_pinned_example) \<and>
   alive_map arc_pinned_example 0 =
     Some \<lparr>page_id = 100, frame_id = 0, evictable = False, arc_status = MRU\<rparr> \<and>
   SetEvictable 0 False arc_pinned_example = Inr arc_pinned_example \<and>
   (\<exists>s'. SetEvictable 0 True arc_pinned_example = Inr s' \<and>
      alive_map s' 0 = Some \<lparr>page_id = 100, frame_id = 0, evictable = True, arc_status = MRU\<rparr> \<and>
      curr_size s' = 4 \<and> mru s' = [3, 2, 1, 0])"
  using SetEvictable_spec [of 7 True arc_pinned_example]
    SetEvictable_spec [of 0 False arc_pinned_example]
    SetEvictable_spec [of 0 True arc_pinned_example]
  by (simp add: arc_pinned_example_def SetEvictable_def)

subsection \<open>Claim C8\<close>

text \<open>
  Claim C8: \<^verbatim>\<open>Remove\<close> of a frame absent from the alive index changes nothing. It
  throws iff the frame is present and not evictable, with the replacer unchanged. A present,
  evictable frame of T1 or T2 is taken out of its list and of the alive index, the size is
  decremented, and no ghost entry is recorded.
\<close>

theorem Remove_spec:
  "(alive_map s f = None \<longrightarrow> Remove f s = Inr s) \<and>
   ((\<exists>m s'. Remove f s = Inl (RuntimeError m s')) \<longleftrightarrow>
      (\<exists>st. alive_map s f = Some st \<and> \<not> evictable st)) \<and>
   (\<forall>m s'. Remove f s = Inl (RuntimeError m s') \<longrightarrow> s' = s) \<and>
   (\<forall>st. alive_map s f = Some st \<and> evictable st \<and>
         (arc_status st = MRU \<and> f \<in> set (mru s) \<or> arc_status st = MFU \<and> f \<in> set (mfu s)) \<longrightarrow>
      (\<exists>s'. Remove f s = Inr s' \<and>
         mru s' = (if arc_status st = MRU then remove1 f (mru s) else mru s) \<and>
         mfu s' = (if arc_status st = MFU then remove1 f (mfu s) else mfu s) \<and>
         alive_map s' = (alive_map s)(f := None) \<and>
         curr_size s' = curr_size s - 1 \<and>
         mru_ghost s' = mru_ghost s \<and> mfu_ghost s' = mfu_ghost s \<and>
         ghost_map s' = ghost_map s \<and>
         mru_target_size s' = mru_target_size s \<and> replacer_size s' = replacer_size s))"
  by (auto simp: Remove_def split: option.splits)

text \<open>
  On the example state: an unknown frame, the pinned frame 0, and frame 3.
\<close>

theorem Remove_spec_witness:
  "alive_map arc_pinned_example 7 = None \<and> Remove 7 arc_pinned_example = Inr arc_pinned_example \<and>
   alive_map arc_pinned_example 0 =
     Some \<lparr>page_id = 100, frame_id = 0, evictable = False, arc_status = MRU\<rparr> \<and>
   Remove 0 arc_pinned_example =
     Inl (RuntimeError ''Cannot remove a non-evictable frame'' arc_pinned_example) \<and>
   alive_map arc_pinned_example 3 =
     Some \<lparr>page_id = 103, frame_id = 3, evictable = True, arc_status = MRU\<rparr> \<and>
   3 \<in> set (mru arc_pinned_example) \<and>
   (\<exists>s'. Remove 3 arc_pinned_example = Inr s' \<and> mru s' = [2, 1, 0] \<and> alive_map s' 3 = None \<and>
      curr_size s' = 2 \<and> mru_ghost s' = [] \<and> ghost_map s' 103 = None)"
  using Remove_spec [where s = arc_pinned_example and f = 7]
    Remove_spec [where s = arc_pinned_example and f = 0]
    Remove_spec [where s = arc_pinned_example and f = 3]
  by (simp add: arc_pinned_example_def Remove_def)

subsection \<open>Claim C10\<close>

text \<open>
  Claim C10: \<^verbatim>\<open>Evict\<close>, \<^verbatim>\<open>SetEvictable\<close> and \<^verbatim>\<open>Remove\<close> leave \<open>p\<close>
  unchanged in every state, also when they throw; \<^verbatim>\<open>Size\<close> only reads the size; and a
  \<^verbatim>\<open>RecordAccess\<close> that changes \<open>p\<close> went through one of the two ghost-hit branches.
\<close>

theorem mru_target_size_frame:
  "mru_target_size (snd (Evict s)) = mru_target_size s \<and>
   (\<forall>s'. SetEvictable f v s = Inr s' \<longrightarrow> mru_target_size s' = mru_target_size s) \<and>
   (\<forall>m s'. SetEvictable f v s = Inl (RuntimeError m s') \<longrightarrow>
      mru_target_size s' = mru_target_size s) \<and>
   (\<forall>s'. Remove f s = Inr s' \<longrightarrow> mru_target_size s' = mru_target_size s) \<and>
   (\<forall>m s'. Remove f s = Inl (RuntimeError m s') \<longrightarrow>
      mru_target_size s' = mru_target_size s) \<and>
   ArcReplacer_Size s = curr_size s \<and>
   (\<forall>s'. RecordAccess f pid s = Inr s' \<and> mru_target_size s' \<noteq> mru_target_size s \<longrightarrow>
      alive_map s f = None \<and>
      (\<exists>g. ghost_map s pid = Some g \<and> (arc_status g = MRU_GHOST \<or> arc_status g = MFU_GHOST)))"
proof -
  have 1: "mru_target_size (snd (Evict s)) = mru_target_size s" by (rule Evict_target)
  have 2: "\<forall>s'. SetEvictable f v s = Inr s' \<longrightarrow> mru_target_size s' = mru_target_size s"
    by (auto simp: SetEvictable_def split: option.splits if_splits)
  have 3: "\<forall>m s'. SetEvictable f v s = Inl (RuntimeError m s') \<longrightarrow>
      mru_target_size s' = mru_target_size s"
    by (auto simp: SetEvictable_def split: option.splits if_splits)
  have 4: "\<forall>s'. Remove f s = Inr s' \<longrightarrow> mru_target_size s' = mru_target_size s"
    by (auto simp: Remove_def split: option.splits if_splits)
  have 5: "\<forall>m s'. Remove f s = Inl (RuntimeError m s') \<longrightarrow>
      mru_target_size s' = mru_target_size s"
    by (auto simp: Remove_def split: option.splits if_splits)
  have 6: "\<forall>s'. RecordAccess f pid s = Inr s' \<and> mru_target_size s' \<noteq> mru_target_size s \<longrightarrow>
      alive_map s f = None \<and>
      (\<exists>g. ghost_map s pid = Some g \<and> (arc_status g = MRU_GHOST \<or> arc_status g = MFU_GHOST))"
    by (auto simp: RecordAccess_def Let_def split: option.splits if_splits)
  from 1 2 3 4 5 6 show ?thesis by (simp add: ArcReplacer_Size_def)
qed

text \<open>
  On the example state, each kind of call once; the ghost hit after the eviction of frame 1
  is the one that changes \<open>p\<close>.
\<close>

theorem mru_target_size_frame_witness:
  "(\<exists>s'. SetEvictable 0 True arc_pinned_example = Inr s' \<and>
      mru_target_size s' = mru_target_size arc_pinned_example) \<and>
   (\<exists>m s'. SetEvictable 7 True arc_pinned_example = Inl (RuntimeError m s') \<and>
      mru_target_size s' = mru_target_size arc_pinned_example) \<and>
   (\<exists>s'. Remove 3 arc_pinned_example = Inr s' \<and>
      mru_target_size s' = mru_target_size arc_pinned_example) \<and>
   (\<exists>m s'. Remove 0 arc_pinned_example = Inl (RuntimeError m s') \<and>
      mru_target_size s' = mru_target_size arc_pinned_example) \<and>
   (\<exists>s'. RecordAccess 1 101 (snd (Evict arc_pinned_example)) = Inr s' \<and>
      mru_target_size s' \<noteq> mru_target_size (snd (Evict arc_pinned_example)) \<and>
      alive_map (snd (Evict arc_pinned_example)) 1 = None)"
proof -
  obtain s1 where 1: "SetEvictable 0 True arc_pinned_example = Inr s1"
    by (simp add: arc_pinned_example_def SetEvictable_def)
  obtain m2 s2 where 2: "SetEvictable 7 True arc_pinned_example = Inl (RuntimeError m2 s2)"
    by (simp add: arc_pinned_example_def SetEvictable_def)
  obtain s3 where 3: "Remove 3 arc_pinned_example = Inr s3"
    by (simp add: arc_pinned_example_def Remove_def)
  obtain m4 s4 where 4: "Remove 0 arc_pinned_example = Inl (RuntimeError m4 s4)"
    by (simp add: arc_pinned_example_def Remove_def)
  obtain s5 where 5: "RecordAccess 1 101 (snd (Evict arc_pinned_example)) = Inr s5"
    "mru_target_size s5 \<noteq> mru_target_size (snd (Evict arc_pinned_example))"
    by (simp add: arc_pinned_example_def Evict_def EvictInternal_def RecordAccess_def)
  from 1 mru_target_size_frame [where s = arc_pinned_example and f = 0 and v = True]
  have a: "mru_target_size s1 = mru_target_size arc_pinned_example" by blast
  from 2 mru_target_size_frame [where s = arc_pinned_example and f = 7 and v = True]
  have b: "mru_target_size s2 = mru_target_size arc_pinned_example" by blast
  from 3 mru_target_size_frame [where s = arc_pinned_example and f = 3]
  have c: "mru_target_size s3 = mru_target_size arc_pinned_example" by blast
  from 4 mru_target_size_frame [where s = arc_pinned_example and f = 0]
  have d: "mru_target_size s4 = mru_target_size arc_pinned_example" by blast
  from 5 mru_target_size_frame [where s = "snd (Evict arc_pinned_example)" and f = 1
      and pid = 101]
  have e: "alive_map (snd (Evict arc_pinned_example)) 1 = None" by blast
  from 1 2 3 4 5 a b c d e show ?thesis by blast
qed

section \<open>ARC replacer: adaptation and trimming\<close>

text \<open>
  What the two ghost-hit branches of \<^verbatim>\<open>RecordAccess\<close> do to \<open>p\<close>: the step
  \<open>\<delta>\<close> is added or subtracted in \<^verbatim>\<open>size_t\<close> arithmetic, and the result is stored as
  it is.
\<close>

lemma ghost_hit_mru_adapts:
  assumes "alive_map s f = None" and "ghost_map s pid = Some g" and "arc_status g = MRU_GHOST"
    and "pid \<in> set (mru_ghost s)"
  shows "\<exists>s'. RecordAccess f pid s = Inr s' \<and>
           mru_target_size s' = mru_target_size s +
             (if length (mru_ghost s) \<ge> length (mfu_ghost s) then 1
              else of_nat (length (mfu_ghost s) div length (mru_ghost s)))"
proof -
  from assms(4) have "length (mru_ghost s) \<noteq> 0" by auto
  with assms show ?thesis by (simp add: RecordAccess_def Let_def)
qed

lemma ghost_hit_mfu_adapts:
  assumes "alive_map s f = None" and "ghost_map s pid = Some g" and "arc_status g = MFU_GHOST"
    and "pid \<in> set (mfu_ghost s)"
  shows "\<exists>s'. RecordAccess f pid s = Inr s' \<and>
           mru_target_size s' = mru_target_size s -
             (if length (mfu_ghost s) \<ge> length (mru_ghost s) then 1
              else of_nat (length (mru_ghost s) div length (mfu_ghost s)))"
proof -
  from assms(4) have "length (mfu_ghost s) \<noteq> 0" by auto
  with assms show ?thesis by (simp add: RecordAccess_def Let_def)
qed

subsection \<open>Claim C1\<close>

text \<open>
  Claim C1 says that a ghost hit in B1 sets \<open>p\<close> to \<open>min(p + \<delta>, N)\<close>, a ghost hit in
  B2 sets it to \<open>max(p - \<delta>, 0)\<close>, and that \<open>p\<close> therefore stays in \<open>[0, N]\<close>. The
  code computes \<open>\<delta>\<close> as claimed but stores \<open>p + \<delta>\<close> and \<open>p - \<delta>\<close> unclamped. With
  capacity 1 and frame 0 only: admit page 10, evict, re-admit page 10 (ghost hit in B1,
  \<open>p = 1\<close>), evict (from T2, into B2), admit page 11, evict (into B1), re-admit page 11:
  the second ghost hit in B1 gives \<open>p = 2 > N\<close>. And: admit page 10, access it again
  (promotion to T2), evict (into B2), re-admit page 10: the ghost hit in B2 at \<open>p = 0\<close>
  wraps \<open>p\<close> around to \<open>2^64 - 1\<close>.
\<close>

theorem p_exceeds_capacity:
  "(case arc_run [OpRecordAccess 0 10, OpEvict, OpRecordAccess 0 10, OpEvict,
                  OpRecordAccess 0 11, OpEvict, OpRecordAccess 0 11] (ArcReplacer_new 1) of
      Inr s \<Rightarrow> mru_target_size s = 2 \<and> replacer_size s = 1
    | Inl e \<Rightarrow> False) \<and>
   (case arc_run [OpRecordAccess 0 10, OpRecordAccess 0 10, OpEvict, OpRecordAccess 0 10]
           (ArcReplacer_new 1) of
      Inr s \<Rightarrow> mru_target_size s = 18446744073709551615 \<and> replacer_size s = 1
    | Inl e \<Rightarrow> False)"
  by (simp add: ArcReplacer_new_def RecordAccess_def Evict_def EvictInternal_def)

subsection \<open>Claim C2\<close>

text \<open>
  On a miss with \<open>|T1| + |B1| = N\<close> and \<open>|T1| < N\<close>, the LRU entry of B1 is popped and
  erased from the ghost index, and the frame is admitted at the MRU end of T1. With T1
  saturated and B1 empty the code still reads and pops the back of B1.
\<close>

lemma miss_trims_mru_ghost:
  assumes "alive_map s f = None" and "ghost_map s pid = None"
    and "length (mru s) + length (mru_ghost s) = unat (replacer_size s)"
    and "length (mru s) < unat (replacer_size s)"
  shows "RecordAccess f pid s =
           Inr (s\<lparr>mru_ghost := butlast (mru_ghost s),
                  ghost_map := (ghost_map s)(last (mru_ghost s) := None),
                  mru := f # mru s,
                  alive_map := (alive_map s)(f \<mapsto>
                    \<lparr>page_id = pid, frame_id = f, evictable = True, arc_status = MRU\<rparr>),
                  curr_size := curr_size s + 1\<rparr>)"
proof -
  from assms(3,4) have "mru_ghost s \<noteq> []" by auto
  with assms show ?thesis by (simp add: RecordAccess_def)
qed

lemma miss_saturated_mru_undefined:
  assumes "alive_map s f = None" and "ghost_map s pid = None"
    and "length (mru s) = unat (replacer_size s)" and "mru_ghost s = []"
  shows "RecordAccess f pid s = Inl UndefinedBehavior"
  using assms by (simp add: RecordAccess_def)

text \<open>
  Runs that respect the capacity keep the invariant of the resident lists, and in a state
  that satisfies it a frame within the capacity that is not resident finds T1 below the
  capacity: the resident frames are distinct frames of the pool other than this one.
\<close>

lemma resident_inv_new: "resident_inv (unat N) (ArcReplacer_new N)"
  by (simp add: resident_inv_def ArcReplacer_new_def)

lemma resident_inv_SetEvictable:
  "resident_inv n s \<Longrightarrow> SetEvictable f v s = Inr s' \<Longrightarrow> resident_inv n s'"
  by (auto simp: resident_inv_def SetEvictable_def split: option.splits if_splits)
     fastforce+

lemma resident_inv_Remove:
  "resident_inv n s \<Longrightarrow> Remove f s = Inr s' \<Longrightarrow> resident_inv n s'"
  by (auto simp: resident_inv_def Remove_def distinct_remove1 split: option.splits if_splits
      dest: notin_set_remove1)
     fastforce+

lemma resident_inv_RecordAccess:
  "resident_inv n s \<Longrightarrow> 0 \<le> f \<Longrightarrow> f < int n \<Longrightarrow> RecordAccess f pid s = Inr s' \<Longrightarrow>
   resident_inv n s'"
  by (auto simp: resident_inv_def RecordAccess_def Let_def distinct_remove1
      split: option.splits if_splits dest: notin_set_remove1)
     fastforce+

lemma resident_inv_disjoint:
  "resident_inv n s \<Longrightarrow> v \<in> set (mru s) \<Longrightarrow> v \<notin> set (mfu s)"
  by (fastforce simp: resident_inv_def)

lemma Evict_cases: "Evict s = (None, s) \<or> evicts_from_mru s \<or> evicts_from_mfu s"
proof (cases "fst (Evict s) = None")
  case False
  then show ?thesis using Evict_Some_cases [of s] by blast
next
  case True
  have "\<forall>f\<in>set (mru s). \<not> is_evictable (alive_map s) f"
  proof (rule ccontr)
    assume "\<not> (\<forall>f\<in>set (mru s). \<not> is_evictable (alive_map s) f)"
    then have e: "\<exists>f\<in>set (mru s). is_evictable (alive_map s) f" by blast
    have "evicts_from_mru s \<or> evicts_from_mfu s"
      using e Evict_mru_first [of s] Evict_mru_second [of s] Evict_mfu_first [of s] by blast
    with True evicts_from_mru_Some [of s] evicts_from_mfu_Some [of s] show False by blast
  qed
  moreover have "\<forall>f\<in>set (mfu s). \<not> is_evictable (alive_map s) f"
  proof (rule ccontr)
    assume "\<not> (\<forall>f\<in>set (mfu s). \<not> is_evictable (alive_map s) f)"
    then have e: "\<exists>f\<in>set (mfu s). is_evictable (alive_map s) f" by blast
    have "evicts_from_mru s \<or> evicts_from_mfu s"
      using e Evict_mfu_first [of s] Evict_mfu_second [of s] Evict_mru_first [of s] by blast
    with True evicts_from_mru_Some [of s] evicts_from_mfu_Some [of s] show False by blast
  qed
  ultimately show ?thesis using Evict_none [of s] by blast
qed

lemma resident_inv_Evict:
  assumes "resident_inv n s"
  shows "resident_inv n (snd (Evict s))"
proof -
  from Evict_cases [of s] consider "Evict s = (None, s)" | "evicts_from_mru s" | "evicts_from_mfu s"
    by blast
  then show ?thesis
  proof cases
    case 1
    with assms show ?thesis by simp
  next
    case 2
    then obtain xs v ys st where e: "mru s = xs @ v # ys" "alive_map s v = Some st"
      "snd (Evict s) = s\<lparr>mru := xs @ ys,
             mru_ghost := page_id st # mru_ghost s,
             ghost_map := (ghost_map s)(page_id st \<mapsto>
               \<lparr>page_id = page_id st, frame_id = v, evictable = False,
                arc_status = MRU_GHOST\<rparr>),
             alive_map := (alive_map s)(v := None),
             curr_size := curr_size s - 1\<rparr>"
      by (auto simp: evicts_from_mru_def)
    from assms e(1) have "v \<in> set (mru s)" "v \<notin> set xs" "v \<notin> set ys"
      by (auto simp: resident_inv_def)
    moreover from assms \<open>v \<in> set (mru s)\<close> have "v \<notin> set (mfu s)"
      by (rule resident_inv_disjoint)
    ultimately show ?thesis using assms e(1)
      unfolding e(3) by (auto simp: resident_inv_def)
  next
    case 3
    then obtain xs v ys st where e: "mfu s = xs @ v # ys" "alive_map s v = Some st"
      "snd (Evict s) = s\<lparr>mfu := xs @ ys,
             mfu_ghost := page_id st # mfu_ghost s,
             ghost_map := (ghost_map s)(page_id st \<mapsto>
               \<lparr>page_id = page_id st, frame_id = v, evictable = False,
                arc_status = MFU_GHOST\<rparr>),
             alive_map := (alive_map s)(v := None),
             curr_size := curr_size s - 1\<rparr>"
      by (auto simp: evicts_from_mfu_def)
    from assms e(1) have "v \<in> set (mfu s)" "v \<notin> set xs" "v \<notin> set ys"
      by (auto simp: resident_inv_def)
    moreover from assms \<open>v \<in> set (mfu s)\<close> have "v \<notin> set (mru s)"
      using resident_inv_disjoint [of n s v] by blast
    ultimately show ?thesis using assms e(1)
      unfolding e(3) by (auto simp: resident_inv_def)
  qed
qed

lemma resident_inv_run:
  "list_all (arc_op_in_range n) ops \<Longrightarrow> resident_inv n s \<Longrightarrow> arc_run ops s = Inr s' \<Longrightarrow>
   resident_inv n s'"
proof (induction ops s rule: arc_run.induct)
  case (1 s)
  then show ?case by simp
next
  case (2 f p ops s)
  from "2.prems"(3) obtain s1 where r: "RecordAccess f p s = Inr s1" "arc_run ops s1 = Inr s'"
    by (auto split: sum.splits)
  from "2.prems"(1) have rng: "0 \<le> f" "f < int n" "list_all (arc_op_in_range n) ops" by simp_all
  from resident_inv_RecordAccess [OF "2.prems"(2) rng(1,2) r(1)] have "resident_inv n s1" .
  from "2.IH" [OF r(1) rng(3) this r(2)] show ?case .
next
  case (3 ops s)
  from "3.prems" have "list_all (arc_op_in_range n) ops" "arc_run ops (snd (Evict s)) = Inr s'"
    by simp_all
  with "3.IH" resident_inv_Evict [OF "3.prems"(2)] show ?case by blast
next
  case (4 f v ops s)
  from "4.prems"(3) obtain s1 where r: "SetEvictable f v s = Inr s1" "arc_run ops s1 = Inr s'"
    by (auto split: sum.splits)
  from "4.prems"(1) have rng: "list_all (arc_op_in_range n) ops" by simp
  from resident_inv_SetEvictable [OF "4.prems"(2) r(1)] have "resident_inv n s1" .
  from "4.IH" [OF r(1) rng this r(2)] show ?case .
next
  case (5 f ops s)
  from "5.prems"(3) obtain s1 where r: "Remove f s = Inr s1" "arc_run ops s1 = Inr s'"
    by (auto split: sum.splits)
  from "5.prems"(1) have rng: "list_all (arc_op_in_range n) ops" by simp
  from resident_inv_Remove [OF "5.prems"(2) r(1)] have "resident_inv n s1" .
  from "5.IH" [OF r(1) rng this r(2)] show ?case .
qed

lemma resident_inv_room:
  assumes "resident_inv n s" and "alive_map s f = None" and "0 \<le> f" and "f < int n"
  shows "length (mru s) < n"
proof -
  from assms(1,2) have nin: "f \<notin> set (mru s)" by (auto simp: resident_inv_def)
  from assms(1) have sub: "set (mru s) \<subseteq> {0..<int n}" by (auto simp: resident_inv_def)
  with nin assms(3,4) have "set (mru s) \<subset> {0..<int n}" by auto
  then have "card (set (mru s)) < card {0..<int n}" by (intro psubset_card_mono) simp_all
  moreover from assms(1) have "card (set (mru s)) = length (mru s)"
    by (simp add: resident_inv_def distinct_card)
  ultimately show ?thesis by simp
qed

text \<open>
  Claim C2, as amended: when \<^verbatim>\<open>RecordAccess\<close> misses all four lists and
  \<open>|T1| + |B1| = N\<close> with \<open>|T1| < N\<close>, the LRU entry of B1 is popped and erased from the
  ghost index, and the new frame is then admitted at the MRU end of T1 with region T1,
  \<open>evictable = true\<close> and the size incremented. The code has no branch that pops T1; in
  every state reached from a new replacer by calls whose \<^verbatim>\<open>RecordAccess\<close> frame ids lie
  in \<open>[0, N)\<close>, a miss for a frame in \<open>[0, N)\<close> finds \<open>|T1| < N\<close>, so the first branch
  is the only one such a run takes.
\<close>

theorem miss_at_L1_capacity:
  "(alive_map s f = None \<and> ghost_map s pid = None \<and>
    length (mru s) + length (mru_ghost s) = unat (replacer_size s) \<and>
    length (mru s) < unat (replacer_size s) \<longrightarrow>
      RecordAccess f pid s =
        Inr (s\<lparr>mru_ghost := butlast (mru_ghost s),
               ghost_map := (ghost_map s)(last (mru_ghost s) := None),
               mru := f # mru s,
               alive_map := (alive_map s)(f \<mapsto>
                 \<lparr>page_id = pid, frame_id = f, evictable = True, arc_status = MRU\<rparr>),
               curr_size := curr_size s + 1\<rparr>)) \<and>
   (list_all (arc_op_in_range (unat N)) ops \<and> arc_run ops (ArcReplacer_new N) = Inr s \<and>
    0 \<le> f \<and> f < int (unat N) \<and> alive_map s f = None \<longrightarrow>
      length (mru s) < unat (replacer_size s))"
proof -
  have a: "RecordAccess f pid s =
        Inr (s\<lparr>mru_ghost := butlast (mru_ghost s),
               ghost_map := (ghost_map s)(last (mru_ghost s) := None),
               mru := f # mru s,
               alive_map := (alive_map s)(f \<mapsto>
                 \<lparr>page_id = pid, frame_id = f, evictable = True, arc_status = MRU\<rparr>),
               curr_size := curr_size s + 1\<rparr>)"
    if "alive_map s f = None" "ghost_map s pid = None"
      "length (mru s) + length (mru_ghost s) = unat (replacer_size s)"
      "length (mru s) < unat (replacer_size s)"
    using that by (rule miss_trims_mru_ghost)
  have b: "length (mru s) < unat (replacer_size s)"
    if r: "list_all (arc_op_in_range (unat N)) ops" "arc_run ops (ArcReplacer_new N) = Inr s"
      and f: "0 \<le> f" "f < int (unat N)" "alive_map s f = None"
  proof -
    from resident_inv_run [OF r(1) resident_inv_new r(2)] have i: "resident_inv (unat N) s" .
    then have "unat (replacer_size s) = unat N" by (simp add: resident_inv_def)
    with resident_inv_room [OF i f(3) f(1,2)] show ?thesis by simp
  qed
  from a b show ?thesis by blast
qed

text \<open>
  The first of the two example states is reached within the capacity, and a miss for frame
  1 there drops page 10 from B1 and admits the frame in front of frame 0.
\<close>

lemma arc_trim_example_reachable:
  "arc_run [OpRecordAccess 0 10, OpEvict, OpRecordAccess 0 11] (ArcReplacer_new 2) =
     Inr arc_trim_example"
  by (simp add: ArcReplacer_new_def RecordAccess_def Evict_def EvictInternal_def
      arc_trim_example_def)

theorem miss_at_L1_capacity_witness:
  "list_all (arc_op_in_range (unat (2 :: 64 word)))
     [OpRecordAccess 0 10, OpEvict, OpRecordAccess 0 11] \<and>
   arc_run [OpRecordAccess 0 10, OpEvict, OpRecordAccess 0 11] (ArcReplacer_new 2) =
     Inr arc_trim_example \<and>
   alive_map arc_trim_example 1 = None \<and> ghost_map arc_trim_example 12 = None \<and>
   length (mru arc_trim_example) + length (mru_ghost arc_trim_example) =
     unat (replacer_size arc_trim_example) \<and>
   length (mru arc_trim_example) < unat (replacer_size arc_trim_example) \<and>
   (\<exists>s'. RecordAccess 1 12 arc_trim_example = Inr s' \<and> mru s' = [1, 0] \<and>
      mru_ghost s' = [] \<and> ghost_map s' 10 = None \<and>
      alive_map s' 1 = Some \<lparr>page_id = 12, frame_id = 1, evictable = True, arc_status = MRU\<rparr> \<and>
      alive_map s' 0 = alive_map arc_trim_example 0 \<and> curr_size s' = 2)"
proof -
  have r: "arc_run [OpRecordAccess 0 10, OpEvict, OpRecordAccess 0 11] (ArcReplacer_new 2) =
     Inr arc_trim_example" by (rule arc_trim_example_reachable)
  have h: "list_all (arc_op_in_range (unat (2 :: 64 word)))
     [OpRecordAccess 0 10, OpEvict, OpRecordAccess 0 11]"
    "alive_map arc_trim_example 1 = None" "ghost_map arc_trim_example 12 = None"
    "length (mru arc_trim_example) + length (mru_ghost arc_trim_example) =
       unat (replacer_size arc_trim_example)"
    by (simp_all add: arc_trim_example_def)
  from miss_at_L1_capacity [where s = arc_trim_example and f = 1 and pid = 12 and N = 2
      and ops = "[OpRecordAccess 0 10, OpEvict, OpRecordAccess 0 11]"] r h
  have l: "length (mru arc_trim_example) < unat (replacer_size arc_trim_example)" by simp
  with miss_at_L1_capacity [where s = arc_trim_example and f = 1 and pid = 12] h
  have "RecordAccess 1 12 arc_trim_example =
        Inr (arc_trim_example\<lparr>mru_ghost := butlast (mru_ghost arc_trim_example),
               ghost_map := (ghost_map arc_trim_example)(last (mru_ghost arc_trim_example) := None),
               mru := 1 # mru arc_trim_example,
               alive_map := (alive_map arc_trim_example)(1 \<mapsto>
                 \<lparr>page_id = 12, frame_id = 1, evictable = True, arc_status = MRU\<rparr>),
               curr_size := curr_size arc_trim_example + 1\<rparr>)" by blast
  then have "\<exists>s'. RecordAccess 1 12 arc_trim_example = Inr s' \<and> mru s' = [1, 0] \<and>
      mru_ghost s' = [] \<and> ghost_map s' 10 = None \<and>
      alive_map s' 1 = Some \<lparr>page_id = 12, frame_id = 1, evictable = True, arc_status = MRU\<rparr> \<and>
      alive_map s' 0 = alive_map arc_trim_example 0 \<and> curr_size s' = 2"
    by (simp add: arc_trim_example_def)
  with r h l show ?thesis by blast
qed

text \<open>
  The claim as stated also gives the code a second branch: with T1 saturated and B1 empty
  the LRU entry of T1 is to be popped and the new frame admitted. In the second example
  state, which holds as many resident frames as the capacity and is accessed for one more
  frame, \<^verbatim>\<open>RecordAccess\<close> does not return such a state: it reaches \<^verbatim>\<open>back()\<close> and
  \<^verbatim>\<open>pop_back()\<close> on the empty B1.
\<close>

theorem saturated_T1_miss_undefined:
  "arc_run [OpRecordAccess 0 10] (ArcReplacer_new 1) = Inr arc_saturated_example \<and>
   alive_map arc_saturated_example 1 = None \<and> ghost_map arc_saturated_example 11 = None \<and>
   length (mru arc_saturated_example) + length (mru_ghost arc_saturated_example) =
     unat (replacer_size arc_saturated_example) \<and>
   \<not> length (mru arc_saturated_example) < unat (replacer_size arc_saturated_example) \<and>
   mru_ghost arc_saturated_example = [] \<and>
   RecordAccess 1 11 arc_saturated_example = Inl UndefinedBehavior \<and>
   arc_run [OpRecordAccess 0 10, OpRecordAccess 1 11] (ArcReplacer_new 1) = Inl UndefinedBehavior"
  by (simp add: ArcReplacer_new_def RecordAccess_def arc_saturated_example_def)

end
